theory Spec2Isabelle
  imports Main "HOL-Library.Multiset"
begin

section \<open>JavaScript values and built-ins used by the code\<close>

text \<open>
  The program is TypeScript. Strings are \<^typ>\<open>string\<close>; \<^verbatim>\<open>undefined\<close> and \<^verbatim>\<open>null\<close> are
  \<^const>\<open>None\<close>. Numbers that the code reads from the record store (years and amounts) are
  integers. The cash-flow functions are given twice. The sections \<open>calculateSummary\<close> and
  \<open>transformCashflowData\<close> add amounts exactly and read a plain object used as a dictionary
  (\<^verbatim>\<open>Record<K, V>\<close>) as a map. The section after them repeats the same loops as the engine
  runs them: with the rounding addition of IEEE doubles, and with the properties that a plain
  object inherits from \<^verbatim>\<open>Object.prototype\<close>. The two agree for amounts whose absolute values
  sum to at most \<open>2^53\<close> and for ids and names that are not names of inherited properties
  (lemmas \<open>calculateSummary_js_exact\<close> and \<open>transformCashflowData_js_exact\<close>).
\<close>

text \<open>
  What a \<^verbatim>\<open>throw\<close> carries: an \<^verbatim>\<open>Error\<close> with the message the code gives it, or the
  TypeError of the engine for a property read on \<^verbatim>\<open>undefined\<close> or \<^verbatim>\<open>null\<close>, whose message is
  the engine's own.
\<close>

datatype js_error = Error string | TypeError

text \<open>
  \<^verbatim>\<open>Number.prototype.toString\<close> on an integer: the decimal digits, after a minus sign for a
  negative one (the notation changes to an exponent only from \<open>10^21\<close> on).
\<close>

definition digit_char :: "nat \<Rightarrow> char" where
  "digit_char d = char_of (48 + d)"

fun nat_to_string :: "nat \<Rightarrow> string" where
  "nat_to_string n =
     (if n < 10 then [digit_char n] else nat_to_string (n div 10) @ [digit_char (n mod 10)])"

definition number_to_string :: "int \<Rightarrow> string" where
  "number_to_string i =
     (if i < 0 then CHR ''-'' # nat_to_string (nat (- i)) else nat_to_string (nat i))"

text \<open>The relational comparison of two strings: lexicographic on code units.\<close>

fun string_less :: "string \<Rightarrow> string \<Rightarrow> bool" where
  "string_less [] [] = False"
| "string_less [] (d # ds) = True"
| "string_less (c # cs) [] = False"
| "string_less (c # cs) (d # ds) =
     (if c = d then string_less cs ds else (of_char c :: nat) < of_char d)"

text \<open>
  \<^verbatim>\<open>Array.prototype.sort\<close>. The sort is stable, and for a consistent comparator its result
  is the one stable sorted arrangement, which insertion from the right computes. Without a
  comparator, elements are compared by their string conversions.
\<close>

fun insert_sorted :: "('a \<Rightarrow> 'a \<Rightarrow> int) \<Rightarrow> 'a \<Rightarrow> 'a list \<Rightarrow> 'a list" where
  "insert_sorted cmp x [] = [x]"
| "insert_sorted cmp x (y # ys) =
     (if cmp x y \<le> 0 then x # y # ys else y # insert_sorted cmp x ys)"

definition array_sort :: "('a \<Rightarrow> 'a \<Rightarrow> int) \<Rightarrow> 'a list \<Rightarrow> 'a list" where
  "array_sort cmp xs = foldr (insert_sorted cmp) xs []"

definition default_compare :: "('a \<Rightarrow> string) \<Rightarrow> 'a \<Rightarrow> 'a \<Rightarrow> int" where
  "default_compare to_str x y =
     (if string_less (to_str x) (to_str y) then - 1
      else if string_less (to_str y) (to_str x) then 1 else 0)"

text \<open>
  \<^verbatim>\<open>new Set(xs)\<close> spread into an array: the distinct elements in the order of their first
  occurrence. \<open>set_add\<close> is \<^verbatim>\<open>Set.prototype.add\<close> on that representation.
\<close>

definition set_add :: "'a \<Rightarrow> 'a list \<Rightarrow> 'a list" where
  "set_add x s = (if x \<in> set s then s else s @ [x])"

definition new_Set :: "'a list \<Rightarrow> 'a list" where
  "new_Set xs = foldl (\<lambda>s x. set_add x s) [] xs"

text \<open>\<^verbatim>\<open>forEach\<close> with a body that may throw: the first exception ends the loop.\<close>

fun forEach :: "('s \<Rightarrow> 'a \<Rightarrow> js_error + 's) \<Rightarrow> 'a list \<Rightarrow> 's \<Rightarrow> js_error + 's" where
  "forEach body [] s = Inr s"
| "forEach body (x # xs) s =
     (case body s x of Inl e \<Rightarrow> Inl e | Inr s' \<Rightarrow> forEach body xs s')"

section \<open>The cash-flow data model\<close>

text \<open>
  Modelled from the spec: the declarations of \<^verbatim>\<open>@/types/cashflow\<close> are not among the
  sources; the records below have the fields that section 3 of the specification lists
  and that the code reads. \<open>record_id\<close>, \<open>cat_id\<close>, \<open>cat_name\<close>, \<open>cat_type\<close> and the
  \<open>file_\<close> fields stand for the source's \<^verbatim>\<open>id\<close>, \<^verbatim>\<open>name\<close>, \<^verbatim>\<open>type\<close>, \<^verbatim>\<open>status\<close> and \<^verbatim>\<open>file\<close>.
\<close>

record CashflowRecord =
  record_id :: string
  source_file_id :: string
  category_id :: string
  year :: int
  amount :: int

record Category =
  cat_id :: string
  cat_name :: string
  cat_type :: string

record UploadedFile =
  file_id :: string
  filename :: string
  file_status :: string
  created_at :: string
  processed_at :: "string option"
  is_deleted :: "bool option"

record CashflowSummary =
  incomeByYear :: "int \<rightharpoonup> int"
  expensesByYear :: "int \<rightharpoonup> int"
  netByYear :: "int \<rightharpoonup> int"
  totalIncome :: int
  totalExpenses :: int
  totalNet :: int

record PivotedCashflow =
  byCategory :: "string \<rightharpoonup> (int \<rightharpoonup> int)"
  byYear :: "int \<rightharpoonup> (string \<rightharpoonup> int)"
  categories :: "string \<rightharpoonup> Category"
  years :: "int list"
  categoryNames :: "string list"
  summary :: CashflowSummary
  records :: "CashflowRecord list"
  file_of :: "UploadedFile option"

section \<open>calculateSummary\<close>

text \<open>The five local variables of \<^verbatim>\<open>calculateSummary\<close>.\<close>

record summary_vars =
  v_incomeByYear :: "int \<rightharpoonup> int"
  v_expensesByYear :: "int \<rightharpoonup> int"
  v_netByYear :: "int \<rightharpoonup> int"
  v_totalIncome :: int
  v_totalExpenses :: int

definition summary_start :: summary_vars where
  "summary_start =
     \<lparr>v_incomeByYear = Map.empty, v_expensesByYear = Map.empty, v_netByYear = Map.empty,
      v_totalIncome = 0, v_totalExpenses = 0\<rparr>"

text \<open>First loop over \<^verbatim>\<open>years\<close>: every year gets the entry 0 in the three maps.\<close>

definition summary_init_year :: "summary_vars \<Rightarrow> int \<Rightarrow> summary_vars" where
  "summary_init_year s y =
     s\<lparr>v_incomeByYear := (v_incomeByYear s)(y \<mapsto> 0),
       v_expensesByYear := (v_expensesByYear s)(y \<mapsto> 0),
       v_netByYear := (v_netByYear s)(y \<mapsto> 0)\<rparr>"

text \<open>\<^verbatim>\<open>x || 0\<close> on a map cell: a missing cell and the cell 0 are both falsy.\<close>

definition or_zero :: "int option \<Rightarrow> int" where
  "or_zero c = (case c of None \<Rightarrow> 0 | Some v \<Rightarrow> if v \<noteq> 0 then v else 0)"

text \<open>The body of the loop over the records.\<close>

definition summary_record ::
  "(string \<rightharpoonup> Category) \<Rightarrow> summary_vars \<Rightarrow> CashflowRecord \<Rightarrow> summary_vars" where
  "summary_record cats s r =
     (case cats (category_id r) of
        None \<Rightarrow> s
      | Some category \<Rightarrow>
          if cat_type category = ''income'' then
            s\<lparr>v_incomeByYear :=
                (v_incomeByYear s)(year r \<mapsto> or_zero (v_incomeByYear s (year r)) + amount r),
              v_totalIncome := v_totalIncome s + amount r\<rparr>
          else if cat_type category = ''expense'' then
            s\<lparr>v_expensesByYear :=
                (v_expensesByYear s)(year r \<mapsto> or_zero (v_expensesByYear s (year r)) + amount r),
              v_totalExpenses := v_totalExpenses s + amount r\<rparr>
          else s)"

text \<open>
  \<^verbatim>\<open>a - b\<close> on two map cells. With a missing operand JavaScript yields NaN, which the
  integer model cannot hold: the result is then \<^const>\<open>None\<close>. \<^verbatim>\<open>calculateSummary\<close> never takes
  that branch: both operands are present for every year of its second loop (lemmas
  \<open>calculateSummary_income\<close> and \<open>calculateSummary_expenses\<close>).
\<close>

fun cell_minus :: "int option \<Rightarrow> int option \<Rightarrow> int option" where
  "cell_minus (Some a) (Some b) = Some (a - b)"
| "cell_minus _ _ = None"

text \<open>Second loop over \<^verbatim>\<open>years\<close>.\<close>

definition summary_net_year :: "summary_vars \<Rightarrow> int \<Rightarrow> summary_vars" where
  "summary_net_year s y =
     s\<lparr>v_netByYear :=
         (v_netByYear s)(y := cell_minus (v_incomeByYear s y) (v_expensesByYear s y))\<rparr>"

definition calculateSummary ::
  "CashflowRecord list \<Rightarrow> (string \<rightharpoonup> Category) \<Rightarrow> int list \<Rightarrow> CashflowSummary" where
  "calculateSummary recs cats ys =
     (let s0 = foldl summary_init_year summary_start ys;
          s1 = foldl (summary_record cats) s0 recs;
          s2 = foldl summary_net_year s1 ys
      in \<lparr>incomeByYear = v_incomeByYear s2,
          expensesByYear = v_expensesByYear s2,
          netByYear = v_netByYear s2,
          totalIncome = v_totalIncome s2,
          totalExpenses = v_totalExpenses s2,
          totalNet = v_totalIncome s2 - v_totalExpenses s2\<rparr>)"

section \<open>transformCashflowData\<close>

text \<open>
  The lookup \<^verbatim>\<open>categoryMap\<close>, by its own properties: a later category with the same id
  replaces an earlier one. What a lookup finds for an id that is no own property but the name
  of an inherited one is in \<open>object_get\<close> below.
\<close>

definition categoryMap_put :: "(string \<rightharpoonup> Category) \<Rightarrow> Category \<Rightarrow> (string \<rightharpoonup> Category)" where
  "categoryMap_put m c = m(cat_id c \<mapsto> c)"

definition build_categoryMap :: "Category list \<Rightarrow> (string \<rightharpoonup> Category)" where
  "build_categoryMap cs = foldl categoryMap_put Map.empty cs"

definition extract_years :: "CashflowRecord list \<Rightarrow> int list" where
  "extract_years recs = array_sort (default_compare number_to_string) (new_Set (map year recs))"

text \<open>The three structures that the loop over the records fills.\<close>

record pivot_vars =
  v_byCategory :: "string \<rightharpoonup> (int \<rightharpoonup> int)"
  v_byYear :: "int \<rightharpoonup> (string \<rightharpoonup> int)"
  v_categoryNames :: "string list"

definition pivot_init_year :: "pivot_vars \<Rightarrow> int \<Rightarrow> pivot_vars" where
  "pivot_init_year s y = s\<lparr>v_byYear := (v_byYear s)(y \<mapsto> Map.empty)\<rparr>"

text \<open>
  \<^verbatim>\<open>if (cell) cell += a else cell = a\<close>: the test is truthiness, so a cell that holds 0
  is overwritten like a missing one. The sum is exact here; \<open>accumulate_js\<close> below rounds it.
\<close>

definition accumulate :: "int option \<Rightarrow> int \<Rightarrow> int" where
  "accumulate c a = (case c of None \<Rightarrow> a | Some v \<Rightarrow> if v \<noteq> 0 then v + a else a)"

text \<open>
  The body of the loop over the records, on maps. Reading
  \<^verbatim>\<open>byYear[record.year][categoryName]\<close> throws a TypeError when \<^verbatim>\<open>byYear\<close> has no entry for the
  year. \<open>pivot_record_js\<close> below is the same body with inherited properties and rounding.
\<close>

definition pivot_record ::
  "(string \<rightharpoonup> Category) \<Rightarrow> pivot_vars \<Rightarrow> CashflowRecord \<Rightarrow> js_error + pivot_vars" where
  "pivot_record categoryMap s r =
     (case categoryMap (category_id r) of
        None \<Rightarrow> Inr s
      | Some category \<Rightarrow>
          (let categoryName = cat_name category;
               names = set_add categoryName (v_categoryNames s);
               row = (case v_byCategory s categoryName of None \<Rightarrow> Map.empty | Some m \<Rightarrow> m);
               row' = row(year r \<mapsto> accumulate (row (year r)) (amount r))
           in (case v_byYear s (year r) of
                 None \<Rightarrow> Inl TypeError
               | Some col \<Rightarrow>
                   (let col' = col(categoryName \<mapsto> accumulate (col categoryName) (amount r));
                        rows = (v_byCategory s)(categoryName \<mapsto> row');
                        cols = (v_byYear s)(year r \<mapsto> col')
                    in Inr \<lparr>v_byCategory = rows, v_byYear = cols,
                            v_categoryNames = names\<rparr>))))"

definition transformCashflowData ::
  "CashflowRecord list \<Rightarrow> Category list \<Rightarrow> UploadedFile option \<Rightarrow> js_error + PivotedCashflow" where
  "transformCashflowData recs cs f =
     (let categoryMap = build_categoryMap cs;
          ys = extract_years recs;
          s0 = foldl pivot_init_year
                 \<lparr>v_byCategory = Map.empty, v_byYear = Map.empty, v_categoryNames = []\<rparr> ys
      in case forEach (pivot_record categoryMap) recs s0 of
           Inl e \<Rightarrow> Inl e
         | Inr s \<Rightarrow>
             Inr \<lparr>byCategory = v_byCategory s,
                  byYear = v_byYear s,
                  categories = categoryMap,
                  years = ys,
                  categoryNames = array_sort (default_compare (\<lambda>n. n)) (v_categoryNames s),
                  summary = calculateSummary recs categoryMap ys,
                  records = recs,
                  file_of = f\<rparr>)"

section \<open>The loops as the engine runs them\<close>

text \<open>
  A JavaScript number is an IEEE double. On integers, the sum of two doubles is the integer
  sum rounded to a significand of 53 bits, ties to the even significand; up to \<open>2^53\<close> in
  absolute value every integer is a double and the sum is exact. The exponent range (overflow
  to \<^verbatim>\<open>Infinity\<close> from \<open>2^1024\<close> on) and amounts with a fractional part are not modelled.
\<close>

function bit_length :: "int \<Rightarrow> nat" where
  "bit_length n = (if n \<le> 0 then 0 else Suc (bit_length (n div 2)))"
  by pat_completeness auto
termination
  by (relation "measure nat") auto

definition round_double :: "int \<Rightarrow> int" where
  "round_double n =
     (let m = \<bar>n\<bar> in
      if m \<le> 2 ^ 53 then n
      else
        (let e = bit_length m - 53;
             q = m div 2 ^ e;
             r = m mod 2 ^ e;
             q' = (if 2 ^ e < 2 * r then q + 1
                   else if 2 * r = 2 ^ e then (if even q then q else q + 1)
                   else q)
         in sgn n * (q' * 2 ^ e)))"

definition double_add :: "int \<Rightarrow> int \<Rightarrow> int" where
  "double_add a b = round_double (a + b)"

definition double_sub :: "int \<Rightarrow> int \<Rightarrow> int" where
  "double_sub a b = round_double (a - b)"


text \<open>
  How a run of \<^verbatim>\<open>transformCashflowData\<close> ends: it returns, it throws, or it reads an inherited
  property where it expects a row or a cell. In the last case the code goes on with function
  objects and with strings made by \<^verbatim>\<open>+=\<close> on them, for which there are no values here: the
  run is marked with the name of the property and described no further.
\<close>

datatype 'a run = Returns 'a | Throws js_error | Leaves_model string

text \<open>The names of the properties of \<^verbatim>\<open>Object.prototype\<close>, which every plain object inherits.\<close>

definition object_prototype_keys :: "string list" where
  "object_prototype_keys =
     [''constructor'', ''__defineGetter__'', ''__defineSetter__'', ''hasOwnProperty'',
      ''__lookupGetter__'', ''__lookupSetter__'', ''isPrototypeOf'', ''propertyIsEnumerable'',
      ''toString'', ''valueOf'', ''__proto__'', ''toLocaleString'']"

text \<open>
  \<^verbatim>\<open>obj[k]\<close> on a plain object with the own properties \<open>obj\<close>: an own value, an inherited
  one, or \<^verbatim>\<open>undefined\<close>. The inherited values are functions, whose \<^verbatim>\<open>name\<close> is the name of the
  property, but \<^verbatim>\<open>Object\<close> for \<^verbatim>\<open>constructor\<close>; under \<^verbatim>\<open>__proto__\<close> it is
  \<^verbatim>\<open>Object.prototype\<close> itself, which has no \<^verbatim>\<open>name\<close>. All of them are truthy and none has a
  \<^verbatim>\<open>type\<close>.
\<close>

datatype 'v property = Own 'v | Inherited string | Undefined

definition object_get :: "(string \<rightharpoonup> 'v) \<Rightarrow> string \<Rightarrow> 'v property" where
  "object_get obj k =
     (case obj k of
        Some v \<Rightarrow> Own v
      | None \<Rightarrow> if k \<in> set object_prototype_keys then Inherited k else Undefined)"

definition inherited_name :: "string \<Rightarrow> string option" where
  "inherited_name k =
     (if k = ''__proto__'' then None
      else if k = ''constructor'' then Some ''Object''
      else Some k)"

fun forEach_run :: "('s \<Rightarrow> 'a \<Rightarrow> 's run) \<Rightarrow> 'a list \<Rightarrow> 's \<Rightarrow> 's run" where
  "forEach_run body [] s = Returns s"
| "forEach_run body (x # xs) s =
     (case body s x of
        Returns s' \<Rightarrow> forEach_run body xs s'
      | Throws e \<Rightarrow> Throws e
      | Leaves_model k \<Rightarrow> Leaves_model k)"

text \<open>
  The loop bodies of \<^verbatim>\<open>calculateSummary\<close>: an inherited value passes the test \<^verbatim>\<open>!category\<close>
  and is of neither type; the sums and the differences are rounded.
\<close>

definition summary_record_js ::
  "(string \<rightharpoonup> Category) \<Rightarrow> summary_vars \<Rightarrow> CashflowRecord \<Rightarrow> summary_vars" where
  "summary_record_js cats s r =
     (case object_get cats (category_id r) of
        Undefined \<Rightarrow> s
      | Inherited k \<Rightarrow> s
      | Own category \<Rightarrow>
          if cat_type category = ''income'' then
            s\<lparr>v_incomeByYear :=
                (v_incomeByYear s)(year r \<mapsto>
                   double_add (or_zero (v_incomeByYear s (year r))) (amount r)),
              v_totalIncome := double_add (v_totalIncome s) (amount r)\<rparr>
          else if cat_type category = ''expense'' then
            s\<lparr>v_expensesByYear :=
                (v_expensesByYear s)(year r \<mapsto>
                   double_add (or_zero (v_expensesByYear s (year r))) (amount r)),
              v_totalExpenses := double_add (v_totalExpenses s) (amount r)\<rparr>
          else s)"

fun cell_minus_js :: "int option \<Rightarrow> int option \<Rightarrow> int option" where
  "cell_minus_js (Some a) (Some b) = Some (double_sub a b)"
| "cell_minus_js _ _ = None"

definition summary_net_year_js :: "summary_vars \<Rightarrow> int \<Rightarrow> summary_vars" where
  "summary_net_year_js s y =
     s\<lparr>v_netByYear :=
         (v_netByYear s)(y := cell_minus_js (v_incomeByYear s y) (v_expensesByYear s y))\<rparr>"

definition calculateSummary_js ::
  "CashflowRecord list \<Rightarrow> (string \<rightharpoonup> Category) \<Rightarrow> int list \<Rightarrow> CashflowSummary" where
  "calculateSummary_js recs cats ys =
     (let s0 = foldl summary_init_year summary_start ys;
          s1 = foldl (summary_record_js cats) s0 recs;
          s2 = foldl summary_net_year_js s1 ys
      in \<lparr>incomeByYear = v_incomeByYear s2,
          expensesByYear = v_expensesByYear s2,
          netByYear = v_netByYear s2,
          totalIncome = v_totalIncome s2,
          totalExpenses = v_totalExpenses s2,
          totalNet = double_sub (v_totalIncome s2) (v_totalExpenses s2)\<rparr>)"

text \<open>
  \<^verbatim>\<open>categoryMap[category.id] = category\<close> makes an own property, except for the id
  \<^verbatim>\<open>__proto__\<close>, where it replaces the prototype of the lookup.
\<close>

definition build_categoryMap_js :: "Category list \<Rightarrow> (string \<rightharpoonup> Category) run" where
  "build_categoryMap_js cs =
     (if ''__proto__'' \<in> cat_id ` set cs then Leaves_model ''__proto__''
      else Returns (build_categoryMap cs))"

text \<open>
  The body of the loop of \<^verbatim>\<open>transformCashflowData\<close>. For a category name that is the name
  of an inherited property, \<^verbatim>\<open>byCategory[categoryName]\<close> and \<^verbatim>\<open>byYear[year][categoryName]\<close> are
  the inherited value: no row is made, the amount is written onto that value, and \<^verbatim>\<open>+=\<close>
  stores a string in \<^verbatim>\<open>byYear[year]\<close>.
\<close>

definition accumulate_js :: "int option \<Rightarrow> int \<Rightarrow> int" where
  "accumulate_js c a = (case c of None \<Rightarrow> a | Some v \<Rightarrow> if v \<noteq> 0 then double_add v a else a)"

definition pivot_add :: "string \<Rightarrow> pivot_vars \<Rightarrow> CashflowRecord \<Rightarrow> pivot_vars run" where
  "pivot_add categoryName s r =
     (if categoryName \<in> set object_prototype_keys then Leaves_model categoryName
      else
        (let names = set_add categoryName (v_categoryNames s);
             row = (case v_byCategory s categoryName of None \<Rightarrow> Map.empty | Some m \<Rightarrow> m);
             row' = row(year r \<mapsto> accumulate_js (row (year r)) (amount r))
         in (case v_byYear s (year r) of
               None \<Rightarrow> Throws TypeError
             | Some col \<Rightarrow>
                 (let col' = col(categoryName \<mapsto> accumulate_js (col categoryName) (amount r));
                      rows = (v_byCategory s)(categoryName \<mapsto> row');
                      cols = (v_byYear s)(year r \<mapsto> col')
                  in Returns \<lparr>v_byCategory = rows, v_byYear = cols,
                               v_categoryNames = names\<rparr>))))"

definition pivot_record_js ::
  "(string \<rightharpoonup> Category) \<Rightarrow> pivot_vars \<Rightarrow> CashflowRecord \<Rightarrow> pivot_vars run" where
  "pivot_record_js categoryMap s r =
     (case object_get categoryMap (category_id r) of
        Undefined \<Rightarrow> Returns s
      | Own category \<Rightarrow> pivot_add (cat_name category) s r
      | Inherited k \<Rightarrow>
          (case inherited_name k of
             None \<Rightarrow> Leaves_model k
           | Some n \<Rightarrow> pivot_add n s r))"

definition pivot_loop ::
  "(string \<rightharpoonup> Category) \<Rightarrow> CashflowRecord list \<Rightarrow> UploadedFile option \<Rightarrow> PivotedCashflow run" where
  "pivot_loop categoryMap recs f =
     (let ys = extract_years recs;
          s0 = foldl pivot_init_year
                 \<lparr>v_byCategory = Map.empty, v_byYear = Map.empty, v_categoryNames = []\<rparr> ys
      in (case forEach_run (pivot_record_js categoryMap) recs s0 of
            Throws e \<Rightarrow> Throws e
          | Leaves_model k \<Rightarrow> Leaves_model k
          | Returns s \<Rightarrow>
              Returns \<lparr>byCategory = v_byCategory s,
                       byYear = v_byYear s,
                       categories = categoryMap,
                       years = ys,
                       categoryNames = array_sort (default_compare (\<lambda>n. n)) (v_categoryNames s),
                       summary = calculateSummary_js recs categoryMap ys,
                       records = recs,
                       file_of = f\<rparr>))"

definition transformCashflowData_js ::
  "CashflowRecord list \<Rightarrow> Category list \<Rightarrow> UploadedFile option \<Rightarrow> PivotedCashflow run" where
  "transformCashflowData_js recs cs f =
     (case build_categoryMap_js cs of
        Throws e \<Rightarrow> Throws e
      | Leaves_model k \<Rightarrow> Leaves_model k
      | Returns categoryMap \<Rightarrow> pivot_loop categoryMap recs f)"

section \<open>The analysis hook\<close>

text \<open>
  The component state of \<^verbatim>\<open>useCashflowAnalysis\<close> and the record store it reads. A store
  query answers with \<^verbatim>\<open>{ data, error }\<close>; the model keeps the answer as a pair and logs every
  query that is issued.
\<close>

record hook_state =
  data :: "PivotedCashflow option"
  isLoading :: bool
  error :: "js_error option"

datatype store_query =
    Select_uploaded_files string
  | Select_cashflow_records string
  | Select_cashflow_categories

type_synonym 'a store_answer = "'a option \<times> string option"

record record_store =
  uploaded_files :: "string \<Rightarrow> UploadedFile list store_answer"
  cashflow_records :: "string \<Rightarrow> CashflowRecord list store_answer"
  cashflow_categories :: "Category list store_answer"

text \<open>
  The \<^verbatim>\<open>try\<close> block after its two state updates, in the order of its three queries: what
  it throws or the transformed data, with the queries it issued. Passing \<^verbatim>\<open>null\<close> for the
  records or the categories makes \<^verbatim>\<open>transformCashflowData\<close> throw a TypeError at its first
  method call on them.
\<close>

definition fetch_transform ::
  "CashflowRecord list option \<Rightarrow> Category list option \<Rightarrow> UploadedFile
     \<Rightarrow> js_error + PivotedCashflow" where
  "fetch_transform recs cats f =
     (case cats of
        None \<Rightarrow> Inl TypeError
      | Some cs \<Rightarrow>
          (case recs of
             None \<Rightarrow> Inl TypeError
           | Some rs \<Rightarrow> transformCashflowData rs cs (Some f)))"

definition fetch_categories ::
  "record_store \<Rightarrow> CashflowRecord list option \<Rightarrow> UploadedFile
     \<Rightarrow> store_query list \<times> (js_error + PivotedCashflow)" where
  "fetch_categories st recs f =
     (case snd (cashflow_categories st) of
        Some msg \<Rightarrow>
          ([Select_cashflow_categories], Inl (Error (''Error fetching categories: '' @ msg)))
      | None \<Rightarrow>
          ([Select_cashflow_categories], fetch_transform recs (fst (cashflow_categories st)) f))"

definition fetch_records ::
  "record_store \<Rightarrow> string \<Rightarrow> UploadedFile
     \<Rightarrow> store_query list \<times> (js_error + PivotedCashflow)" where
  "fetch_records st fileId f =
     (case snd (cashflow_records st fileId) of
        Some msg \<Rightarrow>
          ([Select_cashflow_records fileId], Inl (Error (''Error fetching records: '' @ msg)))
      | None \<Rightarrow>
          (Select_cashflow_records fileId
             # fst (fetch_categories st (fst (cashflow_records st fileId)) f),
           snd (fetch_categories st (fst (cashflow_records st fileId)) f)))"

definition fetch_try ::
  "record_store \<Rightarrow> string \<Rightarrow> store_query list \<times> (js_error + PivotedCashflow)" where
  "fetch_try st fileId =
     (case snd (uploaded_files st fileId) of
        Some msg \<Rightarrow>
          ([Select_uploaded_files fileId], Inl (Error (''Error fetching file: '' @ msg)))
      | None \<Rightarrow>
          (case fst (uploaded_files st fileId) of
             None \<Rightarrow>
               ([Select_uploaded_files fileId],
                Inl (Error (''File with ID '' @ fileId @ '' not found or has been deleted'')))
           | Some [] \<Rightarrow>
               ([Select_uploaded_files fileId],
                Inl (Error (''File with ID '' @ fileId @ '' not found or has been deleted'')))
           | Some (f # _) \<Rightarrow>
               (Select_uploaded_files fileId # fst (fetch_records st fileId f),
                snd (fetch_records st fileId f))))"

text \<open>
  \<^verbatim>\<open>fetchData\<close>, on the component state and the query log. The guard on \<^verbatim>\<open>fileId\<close> is
  truthiness: of all strings only the empty one is falsy. Past the guard, the state is
  given as the \<^verbatim>\<open>finally\<close> block leaves it: \<^verbatim>\<open>setIsLoading(true)\<close> and \<^verbatim>\<open>setError(null)\<close>
  are overwritten by \<^verbatim>\<open>setIsLoading(false)\<close> and, on an exception, by \<^verbatim>\<open>setError(err)\<close>.
\<close>

definition fetchData ::
  "record_store \<Rightarrow> string \<Rightarrow> hook_state \<times> store_query list \<Rightarrow> hook_state \<times> store_query list" where
  "fetchData st fileId sl =
     (if fileId = [] then
        ((fst sl)\<lparr>error := Some (Error ''File ID is required''), isLoading := False\<rparr>, snd sl)
      else
        (case snd (fetch_try st fileId) of
           Inr transformedData \<Rightarrow>
             ((fst sl)\<lparr>isLoading := False, error := None, data := Some transformedData\<rparr>,
              snd sl @ fst (fetch_try st fileId))
         | Inl err \<Rightarrow>
             ((fst sl)\<lparr>isLoading := False, error := Some err\<rparr>,
              snd sl @ fst (fetch_try st fileId))))"

section \<open>The task view\<close>

text \<open>
  \<^verbatim>\<open>Task\<close>, the view's own \<^verbatim>\<open>UploadedFile\<close> (here \<open>TaskFile\<close>), a row of
  \<^verbatim>\<open>survey_responses\<close>, a task merged with its response and completion flag, and the
  \<^verbatim>\<open>Task & { isComplete: boolean }\<close> of a bucket.
\<close>

record Task =
  task_id :: string
  task_name :: string
  description :: string
  task_type :: string
  category :: "string option"
  seller_id :: string

record TaskFile =
  taskfile_id :: string
  taskfile_task_id :: string
  status :: string

record SurveyResponse =
  response_task_id :: string
  response_value :: "string option"

record TaskWithState = Task +
  response :: "string option"
  state_isComplete :: "bool option"

record CategoryTask = Task +
  task_response :: "string option"
  isComplete :: bool

record TaskCategory =
  name :: string
  tasks :: "CategoryTask list"
  category_isComplete :: bool

text \<open>Truthiness of an optional string: \<^verbatim>\<open>null\<close>, \<^verbatim>\<open>undefined\<close> and \<^verbatim>\<open>""\<close> are falsy.\<close>

definition truthy :: "string option \<Rightarrow> bool" where
  "truthy v = (case v of None \<Rightarrow> False | Some s \<Rightarrow> s \<noteq> [])"

text \<open>
  The callback of \<^verbatim>\<open>tasks.map\<close> in \<^verbatim>\<open>fetchTasksAndFiles\<close>. \<^verbatim>\<open>find\<close> yields the first
  response of the task; a \<^verbatim>\<open>null\<close> file or response list behaves as the empty list.
\<close>

definition merge_task_state ::
  "TaskFile list \<Rightarrow> SurveyResponse list \<Rightarrow> Task \<Rightarrow> TaskWithState" where
  "merge_task_state files responses t =
     (let resp = find (\<lambda>r. response_task_id r = task_id t) responses;
          v = (case resp of None \<Rightarrow> None | Some r \<Rightarrow> response_value r)
      in \<lparr>task_id = task_id t, task_name = task_name t, description = description t,
          task_type = task_type t, category = category t, seller_id = seller_id t,
          response = v,
          state_isComplete =
            Some (list_ex (\<lambda>f. taskfile_task_id f = task_id t \<and> status f = ''processed'') files
                  \<or> truthy v)\<rparr>)"

definition tasksWithState ::
  "Task list \<Rightarrow> TaskFile list \<Rightarrow> SurveyResponse list \<Rightarrow> TaskWithState list" where
  "tasksWithState ts files responses = map (merge_task_state files responses) ts"

text \<open>
  \<^verbatim>\<open>tasksByCategory\<close> is an object whose keys are read back by \<^verbatim>\<open>Object.entries\<close>, so the
  model keeps the insertion order: an association list with distinct keys. \<open>push_task\<close> is
  \<^verbatim>\<open>if (!o[k]) o[k] = []; o[k].push(t)\<close>.
\<close>

fun push_task :: "string \<Rightarrow> 'a \<Rightarrow> (string \<times> 'a list) list \<Rightarrow> (string \<times> 'a list) list" where
  "push_task k t [] = [(k, [t])]"
| "push_task k t ((k', ts) # rest) =
     (if k = k' then (k', ts @ [t]) # rest else (k', ts) # push_task k t rest)"

text \<open>
  \<^verbatim>\<open>Object.entries\<close>: keys that are array indices (canonical decimal numerals below
  \<open>2^32 - 1\<close>) come first, in ascending numeric order, then the other keys in insertion order.
\<close>

definition is_digit :: "char \<Rightarrow> bool" where
  "is_digit c = (48 \<le> (of_char c :: nat) \<and> (of_char c :: nat) \<le> 57)"

definition string_to_nat :: "string \<Rightarrow> nat" where
  "string_to_nat k = foldl (\<lambda>n c. 10 * n + (of_char c - 48)) 0 k"

definition is_array_index :: "string \<Rightarrow> bool" where
  "is_array_index k =
     (case k of
        [] \<Rightarrow> False
      | c # cs \<Rightarrow>
          list_all is_digit k \<and> (if c = CHR ''0'' then cs = [] else True)
          \<and> string_to_nat k < 4294967295)"

definition object_entries :: "(string \<times> 'v) list \<Rightarrow> (string \<times> 'v) list" where
  "object_entries kvs =
     array_sort (\<lambda>a b. int (string_to_nat (fst a)) - int (string_to_nat (fst b)))
       (filter (\<lambda>kv. is_array_index (fst kv)) kvs)
     @ filter (\<lambda>kv. \<not> is_array_index (fst kv)) kvs"

text \<open>
  The body of \<^verbatim>\<open>tasks.forEach\<close> in \<^verbatim>\<open>processTasksAndFiles\<close>, for the runs in which the function
  returns. For a task whose category is the name of a property inherited from
  \<^verbatim>\<open>Object.prototype\<close>, \<^verbatim>\<open>tasksByCategory[category]\<close> is that inherited value, \<^verbatim>\<open>push\<close> on it throws
  a TypeError and no list of buckets is returned; such a run is not described here.
\<close>

definition group_task ::
  "(string \<times> CategoryTask list) list \<Rightarrow> TaskWithState \<Rightarrow> (string \<times> CategoryTask list) list" where
  "group_task tasksByCategory t =
     (let complete = (state_isComplete t = Some True);
          cat = (case category t of
                   None \<Rightarrow> ''Uncategorized''
                 | Some c \<Rightarrow> if c \<noteq> [] then c else ''Uncategorized'')
      in push_task cat
           \<lparr>task_id = task_id t, task_name = task_name t, description = description t,
            task_type = task_type t, category = category t, seller_id = seller_id t,
            task_response = response t, isComplete = complete\<rparr>
           tasksByCategory)"

definition make_category :: "string \<times> CategoryTask list \<Rightarrow> TaskCategory" where
  "make_category = (\<lambda>(n, ts). \<lparr>name = n, tasks = ts, category_isComplete = list_all isComplete ts\<rparr>)"

text \<open>
  The comparator of the final sort. \<^verbatim>\<open>String.prototype.localeCompare\<close> depends on the
  host's collation, so it is a parameter \<open>lc\<close> of the model.
\<close>

definition category_compare ::
  "(string \<Rightarrow> string \<Rightarrow> int) \<Rightarrow> TaskCategory \<Rightarrow> TaskCategory \<Rightarrow> int" where
  "category_compare lc a b =
     (if name a = ''Uncategorized'' then 1
      else if name b = ''Uncategorized'' then - 1
      else lc (name a) (name b))"

text \<open>
  \<^verbatim>\<open>processTasksAndFiles\<close>: the returned array, which is also what it stores with
  \<^verbatim>\<open>setCategories\<close>. The files and the responses are only logged.
\<close>

definition processTasksAndFiles ::
  "(string \<Rightarrow> string \<Rightarrow> int) \<Rightarrow> TaskWithState list \<Rightarrow> TaskFile list \<Rightarrow> SurveyResponse list
     \<Rightarrow> TaskCategory list" where
  "processTasksAndFiles lc ts files responses =
     (let tasksByCategory = foldl group_task [] ts;
          categoriesArray = map make_category (object_entries tasksByCategory)
      in array_sort (category_compare lc) categoriesArray)"

section \<open>Notions used to state the properties\<close>

text \<open>
  The category that a record resolves to in a lookup, by type and by name, and the plain sums
  of amounts that the aggregates are compared with.
\<close>

definition resolved_type :: "(string \<rightharpoonup> Category) \<Rightarrow> CashflowRecord \<Rightarrow> string option" where
  "resolved_type cats r = map_option cat_type (cats (category_id r))"

definition resolved_name :: "(string \<rightharpoonup> Category) \<Rightarrow> CashflowRecord \<Rightarrow> string option" where
  "resolved_name cats r = map_option cat_name (cats (category_id r))"

definition resolved_names :: "(string \<rightharpoonup> Category) \<Rightarrow> CashflowRecord list \<Rightarrow> string list" where
  "resolved_names cats recs = List.map_filter (resolved_name cats) recs"

definition in_year :: "int \<Rightarrow> CashflowRecord list \<Rightarrow> CashflowRecord list" where
  "in_year y recs = filter (\<lambda>r. year r = y) recs"

definition amounts_of_type :: "(string \<rightharpoonup> Category) \<Rightarrow> string \<Rightarrow> CashflowRecord list \<Rightarrow> int" where
  "amounts_of_type cats ty recs =
     sum_list (map amount (filter (\<lambda>r. resolved_type cats r = Some ty) recs))"

definition amounts_of_cell ::
  "(string \<rightharpoonup> Category) \<Rightarrow> string \<Rightarrow> int \<Rightarrow> CashflowRecord list \<Rightarrow> int" where
  "amounts_of_cell cats c y recs =
     sum_list (map amount (filter (\<lambda>r. resolved_name cats r = Some c \<and> year r = y) recs))"

text \<open>The amounts of all records of a year that resolve to some category.\<close>

definition resolved_amounts :: "(string \<rightharpoonup> Category) \<Rightarrow> int \<Rightarrow> CashflowRecord list \<Rightarrow> int" where
  "resolved_amounts cats y recs =
     sum_list (map amount (filter (\<lambda>r. resolved_name cats r \<noteq> None \<and> year r = y) recs))"

text \<open>A cell of a two-level table: \<^verbatim>\<open>m[a][b]\<close>, absent when the row or the entry is.\<close>

definition cell :: "('a \<rightharpoonup> ('b \<rightharpoonup> int)) \<Rightarrow> 'a \<Rightarrow> 'b \<Rightarrow> int option" where
  "cell m a b = (case m a of None \<Rightarrow> None | Some row \<Rightarrow> row b)"

text \<open>
  What the fields of a pivot are in terms of the input records and the category lookup: the
  characterisation that the facts about \<^verbatim>\<open>transformCashflowData\<close> are derived from.
\<close>

definition pivot_result ::
  "CashflowRecord list \<Rightarrow> (string \<rightharpoonup> Category) \<Rightarrow> PivotedCashflow \<Rightarrow> bool" where
  "pivot_result recs cm p \<longleftrightarrow>
     years p = extract_years recs
   \<and> summary p = calculateSummary recs cm (extract_years recs)
   \<and> categoryNames p = array_sort (default_compare (\<lambda>n. n)) (new_Set (resolved_names cm recs))
   \<and> dom (byYear p) = year ` set recs
   \<and> (\<forall>c. (byCategory p c = None) = (\<not> (\<exists>r \<in> set recs. resolved_name cm r = Some c)))
   \<and> (\<forall>c y. cell (byCategory p) c y =
           (if \<exists>r \<in> set recs. resolved_name cm r = Some c \<and> year r = y
            then Some (amounts_of_cell cm c y recs) else None))
   \<and> (\<forall>c y. cell (byYear p) y c =
           (if \<exists>r \<in> set recs. resolved_name cm r = Some c \<and> year r = y
            then Some (amounts_of_cell cm c y recs) else None))"

text \<open>The example of section 8 of the specification.\<close>

definition example_records :: "CashflowRecord list" where
  "example_records =
     [\<lparr>record_id = ''r1'', source_file_id = ''f1'', category_id = ''c1'', year = 2022, amount = 100\<rparr>,
      \<lparr>record_id = ''r2'', source_file_id = ''f1'', category_id = ''c1'', year = 2022, amount = 50\<rparr>,
      \<lparr>record_id = ''r3'', source_file_id = ''f1'', category_id = ''c2'', year = 2022, amount = - 30\<rparr>]"

definition example_categories :: "Category list" where
  "example_categories =
     [\<lparr>cat_id = ''c1'', cat_name = ''Sales'', cat_type = ''income''\<rparr>,
      \<lparr>cat_id = ''c2'', cat_name = ''Rent'', cat_type = ''expense''\<rparr>]"

text \<open>An absent entry of a yearly map counts as 0.\<close>

definition entry :: "int option \<Rightarrow> int" where
  "entry c = (case c of None \<Rightarrow> 0 | Some v \<Rightarrow> v)"




definition stray_record :: CashflowRecord where
  "stray_record =
     \<lparr>record_id = ''r9'', source_file_id = ''f1'', category_id = ''c9'', year = 2023, amount = 70\<rparr>"

definition year_index_records :: "CashflowRecord list" where
  "year_index_records =
     [\<lparr>record_id = ''r1'', source_file_id = ''f1'', category_id = ''c1'', year = 1, amount = 100\<rparr>,
      \<lparr>record_id = ''r2'', source_file_id = ''f1'', category_id = ''c1'', year = 2, amount = 100\<rparr>,
      \<lparr>record_id = ''r3'', source_file_id = ''f1'', category_id = ''c1'', year = 10, amount = 100\<rparr>]"

text \<open>
  The inputs on which the two descriptions of the loops agree: ids and names that are not
  names of inherited properties, and integer amounts whose absolute values sum to at most
  \<open>2^53\<close>, so that every partial sum is a double. \<open>run_of\<close> reads a result of the first
  description as a run; the two bounds are the invariants of the loops under that condition.
\<close>

definition plain_key :: "string \<Rightarrow> bool" where
  "plain_key k = (k \<notin> set object_prototype_keys)"

definition plain_input :: "CashflowRecord list \<Rightarrow> Category list \<Rightarrow> bool" where
  "plain_input recs cs =
     (list_all (\<lambda>r. plain_key (category_id r)) recs
      \<and> list_all (\<lambda>c. plain_key (cat_id c) \<and> plain_key (cat_name c)) cs)"

definition exactly_summable :: "CashflowRecord list \<Rightarrow> bool" where
  "exactly_summable recs = (sum_list (map (\<lambda>r. \<bar>amount r\<bar>) recs) \<le> 2 ^ 53)"

definition run_of :: "js_error + 'a \<Rightarrow> 'a run" where
  "run_of x = (case x of Inl e \<Rightarrow> Throws e | Inr v \<Rightarrow> Returns v)"

definition summary_bounded :: "int \<Rightarrow> summary_vars \<Rightarrow> bool" where
  "summary_bounded B s \<longleftrightarrow>
     \<bar>v_totalIncome s\<bar> + \<bar>v_totalExpenses s\<bar> \<le> B
   \<and> (\<forall>y. \<bar>or_zero (v_incomeByYear s y)\<bar> + \<bar>or_zero (v_expensesByYear s y)\<bar> \<le> B)"

definition pivot_bounded :: "int \<Rightarrow> pivot_vars \<Rightarrow> bool" where
  "pivot_bounded B s \<longleftrightarrow>
     (\<forall>c y. \<bar>or_zero (cell (v_byCategory s) c y)\<bar> \<le> B)
   \<and> (\<forall>y c. \<bar>or_zero (cell (v_byYear s) y c)\<bar> \<le> B)"

text \<open>
  Sample data for the engine's loops: amounts that leave the exact range, a record whose
  category id is the name of an inherited property, a category with such a name, and one
  record of that category.
\<close>

definition large_amounts :: "CashflowRecord list" where
  "large_amounts =
     [\<lparr>record_id = ''r1'', source_file_id = ''f1'', category_id = ''c1'', year = 2022,
       amount = 9007199254740992\<rparr>,
      \<lparr>record_id = ''r2'', source_file_id = ''f1'', category_id = ''c1'', year = 2022, amount = 1\<rparr>,
      \<lparr>record_id = ''r3'', source_file_id = ''f1'', category_id = ''c1'', year = 2022, amount = 1\<rparr>]"

definition constructor_record :: CashflowRecord where
  "constructor_record =
     \<lparr>record_id = ''r8'', source_file_id = ''f1'', category_id = ''constructor'', year = 2023,
      amount = 70\<rparr>"

definition constructor_category :: Category where
  "constructor_category = \<lparr>cat_id = ''c1'', cat_name = ''constructor'', cat_type = ''income''\<rparr>"


definition one_record :: "CashflowRecord list" where
  "one_record =
     [\<lparr>record_id = ''r1'', source_file_id = ''f1'', category_id = ''c1'', year = 2022, amount = 100\<rparr>]"

text \<open>
  The completion of a task: as the specification words it, with any response of the task,
  and as \<^verbatim>\<open>find\<close> decides it, with the first response of the task in the list.
\<close>

definition claimed_isComplete :: "TaskFile list \<Rightarrow> SurveyResponse list \<Rightarrow> Task \<Rightarrow> bool" where
  "claimed_isComplete files responses t =
     ((\<exists>f \<in> set files. taskfile_task_id f = task_id t \<and> status f = ''processed'')
      \<or> (\<exists>r \<in> set responses. response_task_id r = task_id t \<and> truthy (response_value r)))"

definition first_response_isComplete ::
  "TaskFile list \<Rightarrow> SurveyResponse list \<Rightarrow> Task \<Rightarrow> bool" where
  "first_response_isComplete files responses t =
     ((\<exists>f \<in> set files. taskfile_task_id f = task_id t \<and> status f = ''processed'')
      \<or> (\<exists>i < length responses.
            response_task_id (responses ! i) = task_id t
          \<and> (\<forall>j < i. response_task_id (responses ! j) \<noteq> task_id t)
          \<and> truthy (response_value (responses ! i))))"

text \<open>
  Sample tasks and responses: a task, answered twice, first with the empty string, or
  answered once by the second response of the list; the task without category of the example
  of section 8; a comparison by code units to stand for \<^verbatim>\<open>localeCompare\<close> in the examples;
  and tasks with a category whose name comes after "Uncategorized" in that comparison.
\<close>

definition survey_task :: Task where
  "survey_task =
     \<lparr>task_id = ''t1'', task_name = ''Owner survey'', description = ''About the owner'',
      task_type = ''survey'', category = None, seller_id = ''b1''\<rparr>"

definition answered_twice :: "SurveyResponse list" where
  "answered_twice =
     [\<lparr>response_task_id = ''t1'', response_value = Some []\<rparr>,
      \<lparr>response_task_id = ''t1'', response_value = Some ''yes''\<rparr>]"

definition answered_once :: "SurveyResponse list" where
  "answered_once =
     [\<lparr>response_task_id = ''t0'', response_value = None\<rparr>,
      \<lparr>response_task_id = ''t1'', response_value = Some ''yes''\<rparr>]"

definition null_category_task :: TaskWithState where
  "null_category_task =
     \<lparr>task_id = ''t1'', task_name = ''Employee Handbook'', description = ''Current handbook'',
      task_type = ''document-upload'', category = None, seller_id = ''b1'',
      response = None, state_isComplete = Some False\<rparr>"

definition code_unit_compare :: "string \<Rightarrow> string \<Rightarrow> int" where
  "code_unit_compare = default_compare (\<lambda>s. s)"

definition zoning_tasks :: "TaskWithState list" where
  "zoning_tasks =
     [\<lparr>task_id = ''t2'', task_name = ''Zoning Permit'', description = ''Permit'',
       task_type = ''document-upload'', category = Some ''Zoning'', seller_id = ''b1'',
       response = None, state_isComplete = Some True\<rparr>,
      null_category_task,
      \<lparr>task_id = ''t3'', task_name = ''Balance Sheet'', description = ''Current balance sheet'',
       task_type = ''document-upload'', category = Some ''Financial Documents'', seller_id = ''b1'',
       response = None, state_isComplete = Some False\<rparr>]"

section \<open>Facts about the built-ins\<close>

lemma mset_insert_sorted: "mset (insert_sorted cmp x xs) = add_mset x (mset xs)"
  by (induction xs) simp_all

lemma mset_array_sort: "mset (array_sort cmp xs) = mset xs"
  by (induction xs) (simp_all add: array_sort_def mset_insert_sorted)

lemma set_array_sort: "set (array_sort cmp xs) = set xs"
  using mset_array_sort [of cmp xs] by (metis set_mset_mset)

lemma distinct_array_sort: "distinct (array_sort cmp xs) = distinct xs"
  using mset_array_sort [of cmp xs] by (metis distinct_count_atmost_1 set_mset_mset)

lemma set_add_fold:
  "set (foldl (\<lambda>s x. set_add x s) acc xs) = set acc \<union> set xs"
  by (induction xs arbitrary: acc) (auto simp: set_add_def)

lemma distinct_add_fold:
  "distinct acc \<Longrightarrow> distinct (foldl (\<lambda>s x. set_add x s) acc xs)"
  by (induction xs arbitrary: acc) (auto simp: set_add_def)

lemma set_new_Set: "set (new_Set xs) = set xs"
  by (simp add: new_Set_def set_add_fold)

lemma distinct_new_Set: "distinct (new_Set xs)"
  by (simp add: new_Set_def distinct_add_fold)

section \<open>What calculateSummary computes\<close>

lemma or_zero_eq: "or_zero c = (case c of None \<Rightarrow> 0 | Some v \<Rightarrow> v)"
  by (simp add: or_zero_def split: option.splits)

lemma summary_init_fold:
  "foldl summary_init_year s ys =
     s\<lparr>v_incomeByYear := (\<lambda>y. if y \<in> set ys then Some 0 else v_incomeByYear s y),
       v_expensesByYear := (\<lambda>y. if y \<in> set ys then Some 0 else v_expensesByYear s y),
       v_netByYear := (\<lambda>y. if y \<in> set ys then Some 0 else v_netByYear s y)\<rparr>"
proof (induction ys arbitrary: s)
  case Nil
  show ?case by simp
next
  case (Cons y ys)
  have "foldl summary_init_year s (y # ys) = foldl summary_init_year (summary_init_year s y) ys"
    by simp
  also have "\<dots> = (summary_init_year s y)
     \<lparr>v_incomeByYear := (\<lambda>z. if z \<in> set ys then Some 0 else v_incomeByYear (summary_init_year s y) z),
       v_expensesByYear := (\<lambda>z. if z \<in> set ys then Some 0 else v_expensesByYear (summary_init_year s y) z),
       v_netByYear := (\<lambda>z. if z \<in> set ys then Some 0 else v_netByYear (summary_init_year s y) z)\<rparr>"
    by (rule Cons.IH)
  also have "\<dots> = s
     \<lparr>v_incomeByYear := (\<lambda>z. if z \<in> set (y # ys) then Some 0 else v_incomeByYear s z),
       v_expensesByYear := (\<lambda>z. if z \<in> set (y # ys) then Some 0 else v_expensesByYear s z),
       v_netByYear := (\<lambda>z. if z \<in> set (y # ys) then Some 0 else v_netByYear s z)\<rparr>"
    by (simp add: summary_init_year_def fun_eq_iff)
  finally show ?case .
qed

lemma summary_record_step:
  "v_totalIncome (summary_record cats s r) =
     v_totalIncome s + (if resolved_type cats r = Some ''income'' then amount r else 0)"
  "v_totalExpenses (summary_record cats s r) =
     v_totalExpenses s + (if resolved_type cats r = Some ''expense'' then amount r else 0)"
  "v_netByYear (summary_record cats s r) = v_netByYear s"
  "v_incomeByYear (summary_record cats s r) =
     (if resolved_type cats r = Some ''income''
      then (v_incomeByYear s)(year r \<mapsto> or_zero (v_incomeByYear s (year r)) + amount r)
      else v_incomeByYear s)"
  "v_expensesByYear (summary_record cats s r) =
     (if resolved_type cats r = Some ''expense''
      then (v_expensesByYear s)(year r \<mapsto> or_zero (v_expensesByYear s (year r)) + amount r)
      else v_expensesByYear s)"
  by (auto simp: summary_record_def resolved_type_def split: option.splits)

lemma amounts_of_type_Cons:
  "amounts_of_type cats ty (r # recs) =
     (if resolved_type cats r = Some ty then amount r else 0) + amounts_of_type cats ty recs"
  by (simp add: amounts_of_type_def)

lemma in_year_Cons:
  "in_year y (r # recs) = (if year r = y then r # in_year y recs else in_year y recs)"
  by (simp add: in_year_def)

lemma amounts_of_type_none:
  "\<forall>r \<in> set recs. resolved_type cats r = Some ty \<longrightarrow> year r \<noteq> y
     \<Longrightarrow> amounts_of_type cats ty (in_year y recs) = 0"
  by (induction recs) (auto simp: amounts_of_type_def in_year_def)

lemma summary_record_totalIncome:
  "v_totalIncome (foldl (summary_record cats) s recs)
     = v_totalIncome s + amounts_of_type cats ''income'' recs"
  by (induction recs arbitrary: s)
     (simp_all add: summary_record_step amounts_of_type_Cons amounts_of_type_def)

lemma summary_record_totalExpenses:
  "v_totalExpenses (foldl (summary_record cats) s recs)
     = v_totalExpenses s + amounts_of_type cats ''expense'' recs"
  by (induction recs arbitrary: s)
     (simp_all add: summary_record_step amounts_of_type_Cons amounts_of_type_def)

lemma summary_record_net:
  "v_netByYear (foldl (summary_record cats) s recs) = v_netByYear s"
  by (induction recs arbitrary: s) (simp_all add: summary_record_step)

lemma summary_record_income:
  "v_incomeByYear (foldl (summary_record cats) s recs) y =
     (if \<exists>r \<in> set recs. resolved_type cats r = Some ''income'' \<and> year r = y
      then Some (or_zero (v_incomeByYear s y) + amounts_of_type cats ''income'' (in_year y recs))
      else v_incomeByYear s y)"
proof (induction recs arbitrary: s)
  case Nil
  show ?case by simp
next
  case (Cons r recs)
  show ?case
    by (auto simp: Cons.IH summary_record_step amounts_of_type_Cons in_year_Cons or_zero_eq
        amounts_of_type_none)
qed

lemma summary_record_expenses:
  "v_expensesByYear (foldl (summary_record cats) s recs) y =
     (if \<exists>r \<in> set recs. resolved_type cats r = Some ''expense'' \<and> year r = y
      then Some (or_zero (v_expensesByYear s y) + amounts_of_type cats ''expense'' (in_year y recs))
      else v_expensesByYear s y)"
proof (induction recs arbitrary: s)
  case Nil
  show ?case by simp
next
  case (Cons r recs)
  show ?case
    by (auto simp: Cons.IH summary_record_step amounts_of_type_Cons in_year_Cons or_zero_eq
        amounts_of_type_none)
qed

lemma summary_net_fold:
  "foldl summary_net_year s ys =
     s\<lparr>v_netByYear := (\<lambda>y. if y \<in> set ys
          then cell_minus (v_incomeByYear s y) (v_expensesByYear s y) else v_netByYear s y)\<rparr>"
proof (induction ys arbitrary: s)
  case Nil
  show ?case by simp
next
  case (Cons y ys)
  have "foldl summary_net_year s (y # ys) = foldl summary_net_year (summary_net_year s y) ys"
    by simp
  also have "\<dots> = (summary_net_year s y)
     \<lparr>v_netByYear := (\<lambda>z. if z \<in> set ys
          then cell_minus (v_incomeByYear (summary_net_year s y) z)
                 (v_expensesByYear (summary_net_year s y) z)
          else v_netByYear (summary_net_year s y) z)\<rparr>"
    by (rule Cons.IH)
  also have "\<dots> = s
     \<lparr>v_netByYear := (\<lambda>z. if z \<in> set (y # ys)
          then cell_minus (v_incomeByYear s z) (v_expensesByYear s z) else v_netByYear s z)\<rparr>"
    by (auto simp: summary_net_year_def fun_eq_iff)
  finally show ?case .
qed


lemma calculateSummary_totals:
  "totalIncome (calculateSummary recs cats ys) = amounts_of_type cats ''income'' recs"
  "totalExpenses (calculateSummary recs cats ys) = amounts_of_type cats ''expense'' recs"
  "totalNet (calculateSummary recs cats ys) =
     amounts_of_type cats ''income'' recs - amounts_of_type cats ''expense'' recs"
  by (simp_all add: calculateSummary_def Let_def summary_net_fold summary_record_totalIncome
      summary_record_totalExpenses summary_init_fold summary_start_def)

lemma calculateSummary_income:
  "incomeByYear (calculateSummary recs cats ys) y =
     (if y \<in> set ys \<or> (\<exists>r \<in> set recs. resolved_type cats r = Some ''income'' \<and> year r = y)
      then Some (amounts_of_type cats ''income'' (in_year y recs)) else None)"
  by (simp add: calculateSummary_def Let_def summary_net_fold summary_record_income
      summary_init_fold summary_start_def or_zero_eq amounts_of_type_none)

lemma calculateSummary_expenses:
  "expensesByYear (calculateSummary recs cats ys) y =
     (if y \<in> set ys \<or> (\<exists>r \<in> set recs. resolved_type cats r = Some ''expense'' \<and> year r = y)
      then Some (amounts_of_type cats ''expense'' (in_year y recs)) else None)"
  by (simp add: calculateSummary_def Let_def summary_net_fold summary_record_expenses
      summary_init_fold summary_start_def or_zero_eq amounts_of_type_none)

lemma calculateSummary_net:
  "netByYear (calculateSummary recs cats ys) y =
     (if y \<in> set ys
      then Some (amounts_of_type cats ''income'' (in_year y recs)
                 - amounts_of_type cats ''expense'' (in_year y recs))
      else None)"
  by (simp add: calculateSummary_def Let_def summary_net_fold summary_record_income
      summary_record_expenses summary_record_net
      summary_init_fold summary_start_def or_zero_eq amounts_of_type_none)

section \<open>What transformCashflowData computes\<close>

lemma set_extract_years: "set (extract_years recs) = year ` set recs"
  by (simp add: extract_years_def set_array_sort set_new_Set)

lemma distinct_extract_years: "distinct (extract_years recs)"
  by (simp add: extract_years_def distinct_array_sort distinct_new_Set)

lemma accumulate_eq: "accumulate c a = or_zero c + a"
  by (simp add: accumulate_def or_zero_def split: option.splits)

lemma pivot_init_fold:
  "v_byYear (foldl pivot_init_year s ys) =
     (\<lambda>y. if y \<in> set ys then Some Map.empty else v_byYear s y)"
  "v_byCategory (foldl pivot_init_year s ys) = v_byCategory s"
  "v_categoryNames (foldl pivot_init_year s ys) = v_categoryNames s"
  by (induction ys arbitrary: s) (auto simp: pivot_init_year_def fun_eq_iff)

lemma pivot_record_total:
  "year r \<in> dom (v_byYear s) \<Longrightarrow> \<exists>s'. pivot_record cm s r = Inr s'"
  by (auto simp: pivot_record_def Let_def split: option.splits)

lemma pivot_record_InrE:
  assumes "pivot_record cm s r = Inr s'"
  obtains (skip) "cm (category_id r) = None" "s' = s"
  | (add) k col where "cm (category_id r) = Some k" "v_byYear s (year r) = Some col"
      "v_byCategory s' = (v_byCategory s)(cat_name k \<mapsto>
          (case v_byCategory s (cat_name k) of None \<Rightarrow> Map.empty | Some m \<Rightarrow> m)
          (year r \<mapsto> or_zero (cell (v_byCategory s) (cat_name k) (year r)) + amount r))"
      "v_byYear s' = (v_byYear s)(year r \<mapsto> col(cat_name k \<mapsto> or_zero (col (cat_name k)) + amount r))"
      "v_categoryNames s' = set_add (cat_name k) (v_categoryNames s)"
proof (cases "cm (category_id r)")
  case None
  with assms have "s' = s" by (simp add: pivot_record_def)
  with None show ?thesis by (rule skip)
next
  case (Some k)
  with assms obtain col where col: "v_byYear s (year r) = Some col"
    by (auto simp: pivot_record_def Let_def split: option.splits)
  from assms Some col have s': "s' =
     \<lparr>v_byCategory = (v_byCategory s)(cat_name k \<mapsto>
          (case v_byCategory s (cat_name k) of None \<Rightarrow> Map.empty | Some m \<Rightarrow> m)
          (year r \<mapsto> or_zero (cell (v_byCategory s) (cat_name k) (year r)) + amount r)),
      v_byYear = (v_byYear s)(year r \<mapsto> col(cat_name k \<mapsto> or_zero (col (cat_name k)) + amount r)),
      v_categoryNames = set_add (cat_name k) (v_categoryNames s)\<rparr>"
    by (auto simp: pivot_record_def Let_def accumulate_eq cell_def split: option.splits)
  show ?thesis
    by (rule add [OF Some col]) (simp_all add: s')
qed

lemma pivot_record_dom:
  assumes "pivot_record cm s r = Inr s'"
  shows "dom (v_byYear s') = dom (v_byYear s)"
  using assms by (cases rule: pivot_record_InrE) auto

lemma pivot_record_byCategory:
  assumes "pivot_record cm s r = Inr s'"
  shows "cell (v_byCategory s') c y =
          (if resolved_name cm r = Some c \<and> year r = y
           then Some (or_zero (cell (v_byCategory s) c y) + amount r)
           else cell (v_byCategory s) c y)"
  using assms
proof (cases rule: pivot_record_InrE)
  case skip
  then show ?thesis by (simp add: resolved_name_def)
next
  case (add k col)
  then show ?thesis
    by (auto simp: resolved_name_def cell_def split: option.splits)
qed

lemma pivot_record_byYear:
  assumes "pivot_record cm s r = Inr s'"
  shows "cell (v_byYear s') y c =
          (if resolved_name cm r = Some c \<and> year r = y
           then Some (or_zero (cell (v_byYear s) y c) + amount r)
           else cell (v_byYear s) y c)"
  using assms
proof (cases rule: pivot_record_InrE)
  case skip
  then show ?thesis by (simp add: resolved_name_def)
next
  case (add k col)
  then show ?thesis
    by (auto simp: resolved_name_def cell_def split: option.splits)
qed

lemma pivot_record_rows:
  assumes "pivot_record cm s r = Inr s'"
  shows "(v_byCategory s' c = None) =
          (v_byCategory s c = None \<and> resolved_name cm r \<noteq> Some c)"
  using assms by (cases rule: pivot_record_InrE) (auto simp: resolved_name_def)

lemma pivot_record_names:
  assumes "pivot_record cm s r = Inr s'"
  shows "v_categoryNames s' =
          (case resolved_name cm r of None \<Rightarrow> v_categoryNames s
           | Some n \<Rightarrow> set_add n (v_categoryNames s))"
  using assms by (cases rule: pivot_record_InrE) (auto simp: resolved_name_def)


lemma forEach_ConsE:
  assumes "forEach body (x # xs) s = Inr s'"
  obtains s1 where "body s x = Inr s1" "forEach body xs s1 = Inr s'"
  using assms by (auto split: sum.splits)

lemma amounts_of_cell_Cons:
  "amounts_of_cell cm c y (r # recs) =
     (if resolved_name cm r = Some c \<and> year r = y then amount r else 0)
     + amounts_of_cell cm c y recs"
  by (simp add: amounts_of_cell_def)

lemma amounts_of_cell_none:
  "\<not> (\<exists>r \<in> set recs. resolved_name cm r = Some c \<and> year r = y)
     \<Longrightarrow> amounts_of_cell cm c y recs = 0"
  by (induction recs) (auto simp: amounts_of_cell_def)

lemma forEach_pivot_total:
  "year ` set recs \<subseteq> dom (v_byYear s) \<Longrightarrow> \<exists>s'. forEach (pivot_record cm) recs s = Inr s'"
proof (induction recs arbitrary: s)
  case Nil
  show ?case by simp
next
  case (Cons r recs)
  from Cons.prems have "year r \<in> dom (v_byYear s)" by simp
  then obtain s1 where s1: "pivot_record cm s r = Inr s1"
    using pivot_record_total by blast
  with Cons.prems have "year ` set recs \<subseteq> dom (v_byYear s1)"
    by (simp add: pivot_record_dom)
  from Cons.IH [OF this] s1 show ?case by simp
qed

lemma forEach_pivot_dom:
  "forEach (pivot_record cm) recs s = Inr s' \<Longrightarrow> dom (v_byYear s') = dom (v_byYear s)"
proof (induction recs arbitrary: s)
  case Nil
  then show ?case by simp
next
  case (Cons r recs)
  from Cons.prems obtain s1 where
    "pivot_record cm s r = Inr s1" "forEach (pivot_record cm) recs s1 = Inr s'"
    by (rule forEach_ConsE)
  then show ?case using Cons.IH pivot_record_dom by metis
qed

lemma forEach_pivot_byCategory:
  "forEach (pivot_record cm) recs s = Inr s' \<Longrightarrow>
   cell (v_byCategory s') c y =
     (if \<exists>r \<in> set recs. resolved_name cm r = Some c \<and> year r = y
      then Some (or_zero (cell (v_byCategory s) c y) + amounts_of_cell cm c y recs)
      else cell (v_byCategory s) c y)"
proof (induction recs arbitrary: s)
  case Nil
  then show ?case by simp
next
  case (Cons r recs)
  from Cons.prems obtain s1 where
    s1: "pivot_record cm s r = Inr s1" and rest: "forEach (pivot_record cm) recs s1 = Inr s'"
    by (rule forEach_ConsE)
  show ?case
    unfolding Cons.IH [OF rest] pivot_record_byCategory [OF s1]
    by (auto simp: amounts_of_cell_Cons or_zero_eq amounts_of_cell_none)
qed

lemma forEach_pivot_byYear:
  "forEach (pivot_record cm) recs s = Inr s' \<Longrightarrow>
   cell (v_byYear s') y c =
     (if \<exists>r \<in> set recs. resolved_name cm r = Some c \<and> year r = y
      then Some (or_zero (cell (v_byYear s) y c) + amounts_of_cell cm c y recs)
      else cell (v_byYear s) y c)"
proof (induction recs arbitrary: s)
  case Nil
  then show ?case by simp
next
  case (Cons r recs)
  from Cons.prems obtain s1 where
    s1: "pivot_record cm s r = Inr s1" and rest: "forEach (pivot_record cm) recs s1 = Inr s'"
    by (rule forEach_ConsE)
  show ?case
    unfolding Cons.IH [OF rest] pivot_record_byYear [OF s1]
    by (auto simp: amounts_of_cell_Cons or_zero_eq amounts_of_cell_none)
qed

lemma forEach_pivot_rows:
  "forEach (pivot_record cm) recs s = Inr s' \<Longrightarrow>
   (v_byCategory s' c = None) =
     (v_byCategory s c = None \<and> \<not> (\<exists>r \<in> set recs. resolved_name cm r = Some c))"
proof (induction recs arbitrary: s)
  case Nil
  then show ?case by simp
next
  case (Cons r recs)
  from Cons.prems obtain s1 where
    s1: "pivot_record cm s r = Inr s1" and rest: "forEach (pivot_record cm) recs s1 = Inr s'"
    by (rule forEach_ConsE)
  show ?case
    unfolding Cons.IH [OF rest] pivot_record_rows [OF s1] by auto
qed

lemma forEach_pivot_names:
  "forEach (pivot_record cm) recs s = Inr s' \<Longrightarrow>
   v_categoryNames s' = foldl (\<lambda>ns n. set_add n ns) (v_categoryNames s) (resolved_names cm recs)"
proof (induction recs arbitrary: s)
  case Nil
  then show ?case by (simp add: resolved_names_def)
next
  case (Cons r recs)
  from Cons.prems obtain s1 where
    s1: "pivot_record cm s r = Inr s1" and rest: "forEach (pivot_record cm) recs s1 = Inr s'"
    by (rule forEach_ConsE)
  show ?case
    unfolding Cons.IH [OF rest] pivot_record_names [OF s1]
    by (simp add: resolved_names_def split: option.splits)
qed


lemma transformCashflowData_result:
  obtains p where "transformCashflowData recs cs f = Inr p"
    and "pivot_result recs (build_categoryMap cs) p"
proof -
  define cm where "cm = build_categoryMap cs"
  define s0 where "s0 = foldl pivot_init_year
     \<lparr>v_byCategory = Map.empty, v_byYear = Map.empty, v_categoryNames = []\<rparr> (extract_years recs)"
  have s0: "v_byCategory s0 = Map.empty" "v_categoryNames s0 = []"
    "v_byYear s0 = (\<lambda>y. if y \<in> year ` set recs then Some Map.empty else None)"
    by (simp_all add: s0_def pivot_init_fold set_extract_years fun_eq_iff)
  have "year ` set recs \<subseteq> dom (v_byYear s0)"
    by (auto simp: s0)
  then obtain s where s: "forEach (pivot_record cm) recs s0 = Inr s"
    using forEach_pivot_total by blast
  define p where "p =
     \<lparr>byCategory = v_byCategory s, byYear = v_byYear s, categories = cm,
      years = extract_years recs,
      categoryNames = array_sort (default_compare (\<lambda>n. n)) (v_categoryNames s),
      summary = calculateSummary recs cm (extract_years recs),
      records = recs, file_of = f\<rparr>"
  have res: "transformCashflowData recs cs f = Inr p"
    using s by (simp add: transformCashflowData_def Let_def cm_def [symmetric] s0_def [symmetric] p_def)
  have cell0: "cell (v_byCategory s0) c y = None" "cell (v_byYear s0) y c = None" for c y
    by (simp_all add: cell_def s0)
  have "years p = extract_years recs"
    by (simp add: p_def)
  moreover have "summary p = calculateSummary recs cm (extract_years recs)"
    by (simp add: p_def)
  moreover have "categoryNames p
      = array_sort (default_compare (\<lambda>n. n)) (new_Set (resolved_names cm recs))"
    by (simp add: p_def forEach_pivot_names [OF s] s0 new_Set_def)
  moreover have "dom (byYear p) = year ` set recs"
    by (auto simp: p_def forEach_pivot_dom [OF s] s0 split: if_splits)
  moreover have "(byCategory p c = None) = (\<not> (\<exists>r \<in> set recs. resolved_name cm r = Some c))"
    for c
    by (simp add: p_def forEach_pivot_rows [OF s] s0)
  moreover have "cell (byCategory p) c y =
           (if \<exists>r \<in> set recs. resolved_name cm r = Some c \<and> year r = y
            then Some (amounts_of_cell cm c y recs) else None)" for c y
    by (simp add: p_def forEach_pivot_byCategory [OF s] cell0 or_zero_def)
  moreover have "cell (byYear p) y c =
           (if \<exists>r \<in> set recs. resolved_name cm r = Some c \<and> year r = y
            then Some (amounts_of_cell cm c y recs) else None)" for c y
    by (simp add: p_def forEach_pivot_byYear [OF s] cell0 or_zero_def)
  ultimately have "pivot_result recs cm p"
    unfolding pivot_result_def by blast
  with res show ?thesis
    unfolding cm_def by (rule that)
qed

lemma pivot_resultD:
  assumes "pivot_result recs cm p"
  shows "years p = extract_years recs"
    and "summary p = calculateSummary recs cm (extract_years recs)"
    and "categoryNames p
      = array_sort (default_compare (\<lambda>n. n)) (new_Set (resolved_names cm recs))"
    and "dom (byYear p) = year ` set recs"
    and "(byCategory p c = None) = (\<not> (\<exists>r \<in> set recs. resolved_name cm r = Some c))"
    and "cell (byCategory p) c y =
           (if \<exists>r \<in> set recs. resolved_name cm r = Some c \<and> year r = y
            then Some (amounts_of_cell cm c y recs) else None)"
    and "cell (byYear p) y c =
           (if \<exists>r \<in> set recs. resolved_name cm r = Some c \<and> year r = y
            then Some (amounts_of_cell cm c y recs) else None)"
  using assms unfolding pivot_result_def by blast+

section \<open>Sums under reordering and removal of records\<close>

lemma amounts_of_type_mset:
  "mset recs' = mset recs \<Longrightarrow> amounts_of_type cats ty recs' = amounts_of_type cats ty recs"
proof -
  assume eq: "mset recs' = mset recs"
  let ?P = "\<lambda>r. resolved_type cats r = Some ty"
  have "mset (map amount (filter ?P recs')) = mset (map amount (filter ?P recs))"
    by (simp add: eq)
  then have "sum_mset (mset (map amount (filter ?P recs')))
           = sum_mset (mset (map amount (filter ?P recs)))"
    by simp
  then show ?thesis
    by (simp only: amounts_of_type_def sum_mset_sum_list)
qed

lemma amounts_of_cell_mset:
  "mset recs' = mset recs \<Longrightarrow> amounts_of_cell cats c y recs' = amounts_of_cell cats c y recs"
proof -
  assume eq: "mset recs' = mset recs"
  let ?P = "\<lambda>r. resolved_name cats r = Some c \<and> year r = y"
  have "mset (map amount (filter ?P recs')) = mset (map amount (filter ?P recs))"
    by (simp add: eq)
  then have "sum_mset (mset (map amount (filter ?P recs')))
           = sum_mset (mset (map amount (filter ?P recs)))"
    by simp
  then show ?thesis
    by (simp only: amounts_of_cell_def sum_mset_sum_list)
qed

lemma mset_in_year: "mset recs' = mset recs \<Longrightarrow> mset (in_year y recs') = mset (in_year y recs)"
  by (simp add: in_year_def)

lemma calculateSummary_cong:
  assumes "mset recs' = mset recs" and "set ys' = set ys"
  shows "calculateSummary recs' cats ys' = calculateSummary recs cats ys"
proof (rule CashflowSummary.equality)
  have sets: "set recs' = set recs"
    using assms(1) by (rule mset_eq_setD)
  note sums = amounts_of_type_mset [OF mset_in_year [OF assms(1)]] amounts_of_type_mset [OF assms(1)]
  show "incomeByYear (calculateSummary recs' cats ys') = incomeByYear (calculateSummary recs cats ys)"
    by (rule ext) (simp add: calculateSummary_income sets assms(2) sums)
  show "expensesByYear (calculateSummary recs' cats ys') = expensesByYear (calculateSummary recs cats ys)"
    by (rule ext) (simp add: calculateSummary_expenses sets assms(2) sums)
  show "netByYear (calculateSummary recs' cats ys') = netByYear (calculateSummary recs cats ys)"
    by (rule ext) (simp add: calculateSummary_net assms(2) sums)
  show "totalIncome (calculateSummary recs' cats ys') = totalIncome (calculateSummary recs cats ys)"
    by (simp add: calculateSummary_totals sums)
  show "totalExpenses (calculateSummary recs' cats ys') = totalExpenses (calculateSummary recs cats ys)"
    by (simp add: calculateSummary_totals sums)
  show "totalNet (calculateSummary recs' cats ys') = totalNet (calculateSummary recs cats ys)"
    by (simp add: calculateSummary_totals sums)
  show "CashflowSummary.more (calculateSummary recs' cats ys')
      = CashflowSummary.more (calculateSummary recs cats ys)"
    by simp
qed

lemma table_eqI:
  assumes "\<And>a. (m a = None) = (m' a = None)" and "\<And>a b. cell m a b = cell m' a b"
  shows "m = m'"
proof (rule ext)
  fix a
  show "m a = m' a"
  proof (cases "m a")
    case None
    with assms(1) [of a] show ?thesis by simp
  next
    case (Some row)
    with assms(1) [of a] obtain row' where row': "m' a = Some row'" by auto
    have "row b = row' b" for b
      using assms(2) [of a b] Some row' by (simp add: cell_def)
    then have "row = row'" by (rule ext)
    with Some row' show ?thesis by simp
  qed
qed

lemma build_categoryMap_fold:
  "dom (foldl categoryMap_put m cs) = dom m \<union> cat_id ` set cs"
  by (induction cs arbitrary: m) (auto simp: categoryMap_put_def)

lemma dom_build_categoryMap: "dom (build_categoryMap cs) = cat_id ` set cs"
  by (simp add: build_categoryMap_def build_categoryMap_fold)

lemma build_categoryMap_fold_ran:
  "foldl categoryMap_put m cs k = Some c \<Longrightarrow> c \<in> set cs \<or> m k = Some c"
proof (induction cs arbitrary: m)
  case Nil
  then show ?case by simp
next
  case (Cons a cs)
  from Cons.prems have "foldl categoryMap_put (categoryMap_put m a) cs k = Some c"
    by simp
  from Cons.IH [OF this] show ?case
    by (auto simp: categoryMap_put_def split: if_splits)
qed

lemma build_categoryMap_in_list: "build_categoryMap cs k = Some c \<Longrightarrow> c \<in> set cs"
  using build_categoryMap_fold_ran [of Map.empty cs k c] by (simp add: build_categoryMap_def)

lemma set_resolved_names:
  "set (resolved_names cm recs) = {n. \<exists>r \<in> set recs. resolved_name cm r = Some n}"
  by (auto simp: resolved_names_def List.map_filter_def intro: rev_image_eqI)

lemma amounts_of_type_filter:
  assumes "\<And>r. resolved_type cats r = Some ty \<Longrightarrow> P r"
  shows "amounts_of_type cats ty (filter P recs) = amounts_of_type cats ty recs"
proof -
  have "filter (\<lambda>r. resolved_type cats r = Some ty) (filter P recs)
      = filter (\<lambda>r. resolved_type cats r = Some ty) recs"
    using assms by (auto intro: filter_cong)
  then show ?thesis
    by (simp only: amounts_of_type_def)
qed

lemma in_year_filter: "in_year y (filter P recs) = filter P (in_year y recs)"
  by (auto simp: in_year_def intro: filter_cong)

lemma calculateSummary_filter:
  assumes "\<And>r. resolved_type cats r = Some ''income'' \<Longrightarrow> P r"
    and "\<And>r. resolved_type cats r = Some ''expense'' \<Longrightarrow> P r"
  shows "calculateSummary (filter P recs) cats ys = calculateSummary recs cats ys"
proof (rule CashflowSummary.equality)
  note sums = amounts_of_type_filter [of cats "''income''" P, OF assms(1)]
    amounts_of_type_filter [of cats "''expense''" P, OF assms(2)]
  have ex_i: "(\<exists>r \<in> set (filter P recs). resolved_type cats r = Some ''income'' \<and> year r = y)
      = (\<exists>r \<in> set recs. resolved_type cats r = Some ''income'' \<and> year r = y)" for y
    using assms(1) by auto
  have ex_e: "(\<exists>r \<in> set (filter P recs). resolved_type cats r = Some ''expense'' \<and> year r = y)
      = (\<exists>r \<in> set recs. resolved_type cats r = Some ''expense'' \<and> year r = y)" for y
    using assms(2) by auto
  show "incomeByYear (calculateSummary (filter P recs) cats ys)
      = incomeByYear (calculateSummary recs cats ys)"
    by (rule ext) (simp only: calculateSummary_income ex_i in_year_filter sums)
  show "expensesByYear (calculateSummary (filter P recs) cats ys)
      = expensesByYear (calculateSummary recs cats ys)"
    by (rule ext) (simp only: calculateSummary_expenses ex_e in_year_filter sums)
  show "netByYear (calculateSummary (filter P recs) cats ys)
      = netByYear (calculateSummary recs cats ys)"
    by (rule ext) (simp only: calculateSummary_net in_year_filter sums)
  show "totalIncome (calculateSummary (filter P recs) cats ys)
      = totalIncome (calculateSummary recs cats ys)"
    by (simp only: calculateSummary_totals sums)
  show "totalExpenses (calculateSummary (filter P recs) cats ys)
      = totalExpenses (calculateSummary recs cats ys)"
    by (simp only: calculateSummary_totals sums)
  show "totalNet (calculateSummary (filter P recs) cats ys)
      = totalNet (calculateSummary recs cats ys)"
    by (simp only: calculateSummary_totals sums)
  show "CashflowSummary.more (calculateSummary (filter P recs) cats ys)
      = CashflowSummary.more (calculateSummary recs cats ys)"
    by simp
qed


lemma resolved_names_skip:
  "resolved_name cm r = None \<Longrightarrow>
   resolved_names cm (rs1 @ r # rs2) = resolved_names cm (rs1 @ rs2)"
  by (simp add: resolved_names_def List.map_filter_def)

lemma amounts_of_cell_skip:
  "resolved_name cm r = None \<Longrightarrow>
   amounts_of_cell cm c y (rs1 @ r # rs2) = amounts_of_cell cm c y (rs1 @ rs2)"
  by (simp add: amounts_of_cell_def)

lemma amounts_of_type_skip:
  "resolved_type cm r = None \<Longrightarrow>
   amounts_of_type cm ty (in_year y (rs1 @ r # rs2)) = amounts_of_type cm ty (in_year y (rs1 @ rs2))"
  "resolved_type cm r = None \<Longrightarrow>
   amounts_of_type cm ty (rs1 @ r # rs2) = amounts_of_type cm ty (rs1 @ rs2)"
  by (simp_all add: amounts_of_type_def in_year_def)

lemma in_year_empty: "y \<notin> year ` set recs \<Longrightarrow> in_year y recs = []"
  by (auto simp: in_year_def filter_empty_conv)

lemma unresolved_iff:
  "(category_id r \<notin> cat_id ` set cs) = (build_categoryMap cs (category_id r) = None)"
  using dom_build_categoryMap [of cs] by (auto simp: domIff)

lemma calculateSummary_skip:
  assumes "cm (category_id r) = None"
  shows "calculateSummary (rs1 @ r # rs2) cm ys = calculateSummary (rs1 @ rs2) cm ys"
proof -
  let ?P = "\<lambda>x. resolved_type cm x \<noteq> None"
  have "\<not> ?P r"
    using assms by (simp add: resolved_type_def)
  then have "filter ?P (rs1 @ r # rs2) = filter ?P (rs1 @ rs2)"
    by simp
  then have "calculateSummary (filter ?P (rs1 @ r # rs2)) cm ys
           = calculateSummary (filter ?P (rs1 @ rs2)) cm ys"
    by (simp only:)
  then show ?thesis
    by (simp only: calculateSummary_filter [of cm ?P] option.distinct simp_thms)
qed

lemma sum_amounts_of_cell:
  assumes "finite S" and "set (resolved_names cm recs) \<subseteq> S"
  shows "(\<Sum>c \<in> S. amounts_of_cell cm c y recs) = resolved_amounts cm y recs"
  using assms(2)
proof (induction recs)
  case Nil
  show ?case by (simp add: amounts_of_cell_def resolved_amounts_def)
next
  case (Cons r recs)
  from Cons.prems have sub: "set (resolved_names cm recs) \<subseteq> S"
    by (auto simp: set_resolved_names)
  have one: "(\<Sum>c \<in> S. if resolved_name cm r = Some c \<and> year r = y then amount r else 0)
      = (if resolved_name cm r \<noteq> None \<and> year r = y then amount r else 0)"
  proof (cases "resolved_name cm r")
    case None
    then show ?thesis by simp
  next
    case (Some n)
    with Cons.prems have "n \<in> S"
      by (auto simp: set_resolved_names)
    have "(\<Sum>c \<in> S. if resolved_name cm r = Some c \<and> year r = y then amount r else 0)
        = (\<Sum>c \<in> S. if c = n then (if year r = y then amount r else 0) else 0)"
      by (rule sum.cong) (auto simp: Some)
    also have "\<dots> = (if year r = y then amount r else 0)"
      using assms(1) \<open>n \<in> S\<close> by simp
    finally show ?thesis by (simp add: Some)
  qed
  have "(\<Sum>c \<in> S. amounts_of_cell cm c y (r # recs))
      = (\<Sum>c \<in> S. if resolved_name cm r = Some c \<and> year r = y then amount r else 0)
        + (\<Sum>c \<in> S. amounts_of_cell cm c y recs)"
    by (simp only: amounts_of_cell_Cons sum.distrib)
  also have "\<dots> = (if resolved_name cm r \<noteq> None \<and> year r = y then amount r else 0)
        + resolved_amounts cm y recs"
    by (simp only: one Cons.IH [OF sub])
  also have "\<dots> = resolved_amounts cm y (r # recs)"
    by (simp add: resolved_amounts_def)
  finally show ?case .
qed

section \<open>The pivot with exact sums on maps\<close>

text \<open>
  Three facts about the first description of \<^verbatim>\<open>transformCashflowData\<close>: the two views have
  the same sums, a record without a category changes nothing, and the order of the records
  changes nothing.
\<close>

lemma pivot_views_agree_exact:
  "\<exists>p. transformCashflowData recs cs f = Inr p
     \<and> (\<forall>y \<in> set (years p).
           finite {c. cell (byCategory p) c y \<noteq> None}
         \<and> finite {c. cell (byYear p) y c \<noteq> None}
         \<and> (\<Sum>c \<in> {c. cell (byCategory p) c y \<noteq> None}. the (cell (byCategory p) c y))
           = (\<Sum>c \<in> {c. cell (byYear p) y c \<noteq> None}. the (cell (byYear p) y c))
         \<and> (\<Sum>c \<in> {c. cell (byYear p) y c \<noteq> None}. the (cell (byYear p) y c))
           = resolved_amounts (build_categoryMap cs) y recs)"
proof -
  define cm where "cm = build_categoryMap cs"
  obtain p where p: "transformCashflowData recs cs f = Inr p"
    and pr: "pivot_result recs cm p"
    unfolding cm_def by (rule transformCashflowData_result)
  note d = pivot_resultD [OF pr]
  have same: "cell (byCategory p) c y = cell (byYear p) y c" for c y
    by (simp add: d)
  have sub: "{c. cell (byYear p) y c \<noteq> None} \<subseteq> set (resolved_names cm recs)" for y
    by (auto simp: d set_resolved_names split: if_splits)
  have fin: "finite {c. cell (byYear p) y c \<noteq> None}" for y
    using sub by (rule finite_subset) simp
  have total: "(\<Sum>c \<in> {c. cell (byYear p) y c \<noteq> None}. the (cell (byYear p) y c))
      = resolved_amounts cm y recs" for y
  proof -
    have "(\<Sum>c \<in> {c. cell (byYear p) y c \<noteq> None}. the (cell (byYear p) y c))
        = (\<Sum>c \<in> {c. cell (byYear p) y c \<noteq> None}. amounts_of_cell cm c y recs)"
      by (rule sum.cong) (auto simp: d split: if_splits)
    also have "\<dots> = (\<Sum>c \<in> set (resolved_names cm recs). amounts_of_cell cm c y recs)"
    proof (rule sum.mono_neutral_left)
      show "\<forall>c \<in> set (resolved_names cm recs) - {c. cell (byYear p) y c \<noteq> None}.
          amounts_of_cell cm c y recs = 0"
        by (auto simp: d amounts_of_cell_none split: if_splits)
    next
      show "{c. cell (byYear p) y c \<noteq> None} \<subseteq> set (resolved_names cm recs)"
        by (rule sub)
    qed simp
    also have "\<dots> = resolved_amounts cm y recs"
      by (rule sum_amounts_of_cell) simp_all
    finally show ?thesis .
  qed
  show ?thesis
    using p fin total by (simp add: same cm_def)
qed

lemma unmatched_record_is_skipped_exact:
  assumes "category_id r \<notin> cat_id ` set cs"
  shows "\<exists>p q. transformCashflowData (rs1 @ r # rs2) cs f = Inr p
          \<and> transformCashflowData (rs1 @ rs2) cs f = Inr q
          \<and> byCategory p = byCategory q
          \<and> (\<forall>y c. cell (byYear p) y c = cell (byYear q) y c)
          \<and> categoryNames p = categoryNames q
          \<and> set (categoryNames p) \<subseteq> cat_name ` set cs
          \<and> totalIncome (summary p) = totalIncome (summary q)
          \<and> totalExpenses (summary p) = totalExpenses (summary q)
          \<and> totalNet (summary p) = totalNet (summary q)
          \<and> (\<forall>y. entry (incomeByYear (summary p) y) = entry (incomeByYear (summary q) y)
                \<and> entry (expensesByYear (summary p) y) = entry (expensesByYear (summary q) y)
                \<and> entry (netByYear (summary p) y) = entry (netByYear (summary q) y))
          \<and> calculateSummary (rs1 @ r # rs2) (build_categoryMap cs) ys
              = calculateSummary (rs1 @ rs2) (build_categoryMap cs) ys"
proof -
  define cm where "cm = build_categoryMap cs"
  have none: "cm (category_id r) = None"
    using assms by (simp add: unresolved_iff cm_def)
  then have rn: "resolved_name cm r = None" and rt: "resolved_type cm r = None"
    by (simp_all add: resolved_name_def resolved_type_def)
  obtain p where p: "transformCashflowData (rs1 @ r # rs2) cs f = Inr p"
    and pr: "pivot_result (rs1 @ r # rs2) cm p"
    unfolding cm_def by (rule transformCashflowData_result)
  obtain q where q: "transformCashflowData (rs1 @ rs2) cs f = Inr q"
    and qr: "pivot_result (rs1 @ rs2) cm q"
    unfolding cm_def by (rule transformCashflowData_result)
  note d = pivot_resultD [OF pr] and e = pivot_resultD [OF qr]
  have ex_name: "(\<exists>x \<in> set (rs1 @ r # rs2). resolved_name cm x = Some c \<and> Q x)
      = (\<exists>x \<in> set (rs1 @ rs2). resolved_name cm x = Some c \<and> Q x)" for c Q
    using rn by auto
  have ex_name': "(\<exists>x \<in> set (rs1 @ r # rs2). resolved_name cm x = Some c)
      = (\<exists>x \<in> set (rs1 @ rs2). resolved_name cm x = Some c)" for c
    using rn by auto
  have ex_type: "(\<exists>x \<in> set (rs1 @ r # rs2). resolved_type cm x = Some ty \<and> year x = y)
      = (\<exists>x \<in> set (rs1 @ rs2). resolved_type cm x = Some ty \<and> year x = y)" for ty y
    using rt by auto
  have cells_cat: "cell (byCategory p) c y = cell (byCategory q) c y" for c y
    unfolding d e ex_name amounts_of_cell_skip [OF rn] ..
  have cells_year: "cell (byYear p) y c = cell (byYear q) y c" for c y
    unfolding d e ex_name amounts_of_cell_skip [OF rn] ..
  have rows: "(byCategory p c = None) = (byCategory q c = None)" for c
    unfolding d e ex_name' ..
  have "byCategory p = byCategory q"
    using rows cells_cat by (rule table_eqI)
  moreover have "categoryNames p = categoryNames q"
    by (simp only: d e resolved_names_skip [OF rn])
  moreover have "set (categoryNames p) \<subseteq> cat_name ` set cs"
  proof
    fix n
    assume "n \<in> set (categoryNames p)"
    then obtain x where "resolved_name cm x = Some n"
      by (auto simp: d set_array_sort set_new_Set set_resolved_names)
    then obtain k where "cm (category_id x) = Some k" "cat_name k = n"
      by (auto simp: resolved_name_def)
    then show "n \<in> cat_name ` set cs"
      using build_categoryMap_in_list [of cs "category_id x" k] by (auto simp: cm_def)
  qed
  moreover have "totalIncome (summary p) = totalIncome (summary q)"
    "totalExpenses (summary p) = totalExpenses (summary q)"
    "totalNet (summary p) = totalNet (summary q)"
    by (simp_all only: d e calculateSummary_totals amounts_of_type_skip [OF rt])
  moreover have "entry (incomeByYear (summary p) y) = entry (incomeByYear (summary q) y)" for y
    unfolding d e calculateSummary_income ex_type amounts_of_type_skip [OF rt]
    by (simp add: entry_def amounts_of_type_none)
  moreover have "entry (expensesByYear (summary p) y) = entry (expensesByYear (summary q) y)" for y
    unfolding d e calculateSummary_expenses ex_type amounts_of_type_skip [OF rt]
    by (simp add: entry_def amounts_of_type_none)
  moreover have "entry (netByYear (summary p) y) = entry (netByYear (summary q) y)" for y
    unfolding d e calculateSummary_net amounts_of_type_skip [OF rt]
    by (auto simp: entry_def set_extract_years in_year_empty amounts_of_type_def)
  moreover have "calculateSummary (rs1 @ r # rs2) (build_categoryMap cs) ys
      = calculateSummary (rs1 @ rs2) (build_categoryMap cs) ys"
    using none unfolding cm_def by (rule calculateSummary_skip)
  ultimately show ?thesis
    using p q cells_year by blast
qed


lemma totals_independent_of_record_order_exact:
  assumes "mset recs' = mset recs"
  shows "(\<exists>p p'. transformCashflowData recs cs f = Inr p
            \<and> transformCashflowData recs' cs f = Inr p'
            \<and> byCategory p' = byCategory p \<and> byYear p' = byYear p \<and> summary p' = summary p)
       \<and> calculateSummary recs' cats ys = calculateSummary recs cats ys"
proof
  have sets: "set recs' = set recs"
    using assms by (rule mset_eq_setD)
  obtain p where p: "transformCashflowData recs cs f = Inr p"
    and pr: "pivot_result recs (build_categoryMap cs) p"
    by (rule transformCashflowData_result)
  obtain p' where p': "transformCashflowData recs' cs f = Inr p'"
    and pr': "pivot_result recs' (build_categoryMap cs) p'"
    by (rule transformCashflowData_result)
  note d = pivot_resultD [OF pr] and d' = pivot_resultD [OF pr']
  have "byCategory p' = byCategory p"
    by (rule table_eqI) (simp_all add: d d' sets amounts_of_cell_mset [OF assms])
  moreover have "byYear p' = byYear p"
  proof (rule table_eqI)
    fix y
    have "(y \<in> dom (byYear p')) = (y \<in> dom (byYear p))"
      by (simp only: d(4) d'(4) sets)
    then show "(byYear p' y = None) = (byYear p y = None)"
      unfolding domIff by blast
  next
    fix y c
    show "cell (byYear p') y c = cell (byYear p) y c"
      by (simp add: d d' sets amounts_of_cell_mset [OF assms])
  qed
  moreover have "summary p' = summary p"
    unfolding d(2) d'(2)
    by (rule calculateSummary_cong [OF assms]) (simp add: set_extract_years sets)
  ultimately show "\<exists>p p'. transformCashflowData recs cs f = Inr p
            \<and> transformCashflowData recs' cs f = Inr p'
            \<and> byCategory p' = byCategory p \<and> byYear p' = byYear p \<and> summary p' = summary p"
    using p p' by blast
next
  show "calculateSummary recs' cats ys = calculateSummary recs cats ys"
    by (rule calculateSummary_cong [OF assms refl])
qed

section \<open>Where the engine's loops agree with the exact ones\<close>

lemma round_double_exact: "\<bar>n\<bar> \<le> 2 ^ 53 \<Longrightarrow> round_double n = n"
  by (simp add: round_double_def Let_def)

lemma double_add_exact: "\<bar>a\<bar> + \<bar>b\<bar> \<le> 2 ^ 53 \<Longrightarrow> double_add a b = a + b"
  unfolding double_add_def by (rule round_double_exact) linarith

lemma double_sub_exact: "\<bar>a\<bar> + \<bar>b\<bar> \<le> 2 ^ 53 \<Longrightarrow> double_sub a b = a - b"
  unfolding double_sub_def by (rule round_double_exact) linarith

lemma object_get_plain:
  "plain_key k \<Longrightarrow> object_get obj k = (case obj k of None \<Rightarrow> Undefined | Some v \<Rightarrow> Own v)"
  by (simp add: object_get_def plain_key_def split: option.splits)

lemma summary_boundedD:
  assumes "summary_bounded B s"
  shows "\<bar>v_totalIncome s\<bar> \<le> B" and "\<bar>v_totalExpenses s\<bar> \<le> B"
    and "\<bar>or_zero (v_incomeByYear s y)\<bar> \<le> B" and "\<bar>or_zero (v_expensesByYear s y)\<bar> \<le> B"
    and "\<bar>v_totalIncome s\<bar> + \<bar>v_totalExpenses s\<bar> \<le> B"
    and "\<bar>or_zero (v_incomeByYear s y)\<bar> + \<bar>or_zero (v_expensesByYear s y)\<bar> \<le> B"
proof -
  from assms have t: "\<bar>v_totalIncome s\<bar> + \<bar>v_totalExpenses s\<bar> \<le> B"
    and c: "\<bar>or_zero (v_incomeByYear s y)\<bar> + \<bar>or_zero (v_expensesByYear s y)\<bar> \<le> B"
    unfolding summary_bounded_def by blast+
  from t show "\<bar>v_totalIncome s\<bar> \<le> B" "\<bar>v_totalExpenses s\<bar> \<le> B" by linarith+
  from c show "\<bar>or_zero (v_incomeByYear s y)\<bar> \<le> B" "\<bar>or_zero (v_expensesByYear s y)\<bar> \<le> B"
    by linarith+
  from t show "\<bar>v_totalIncome s\<bar> + \<bar>v_totalExpenses s\<bar> \<le> B" .
  from c show "\<bar>or_zero (v_incomeByYear s y)\<bar> + \<bar>or_zero (v_expensesByYear s y)\<bar> \<le> B" .
qed

lemma summary_record_js_exact:
  assumes "summary_bounded B s" and "B + \<bar>amount r\<bar> \<le> 2 ^ 53"
  shows "summary_record_js cats s r = summary_record cats s r"
proof -
  note b = summary_boundedD [OF assms(1)]
  have "double_add (v_totalIncome s) (amount r) = v_totalIncome s + amount r"
    using b(1) assms(2) by (intro double_add_exact) linarith
  moreover have "double_add (v_totalExpenses s) (amount r) = v_totalExpenses s + amount r"
    using b(2) assms(2) by (intro double_add_exact) linarith
  moreover have "double_add (or_zero (v_incomeByYear s (year r))) (amount r)
      = or_zero (v_incomeByYear s (year r)) + amount r"
    using b(3) [of "year r"] assms(2) by (intro double_add_exact) linarith
  moreover have "double_add (or_zero (v_expensesByYear s (year r))) (amount r)
      = or_zero (v_expensesByYear s (year r)) + amount r"
    using b(4) [of "year r"] assms(2) by (intro double_add_exact) linarith
  ultimately show ?thesis
    by (simp add: summary_record_js_def summary_record_def object_get_def split: option.splits)
qed

lemma summary_record_bounded:
  assumes "summary_bounded B s"
  shows "summary_bounded (B + \<bar>amount r\<bar>) (summary_record cats s r)"
proof -
  note b = summary_boundedD [OF assms]
  have t: "\<bar>v_totalIncome (summary_record cats s r)\<bar> + \<bar>v_totalExpenses (summary_record cats s r)\<bar>
      \<le> B + \<bar>amount r\<bar>"
    using b(5) by (auto simp: summary_record_step)
  have c: "\<bar>or_zero (v_incomeByYear (summary_record cats s r) y)\<bar>
         + \<bar>or_zero (v_expensesByYear (summary_record cats s r) y)\<bar> \<le> B + \<bar>amount r\<bar>" for y
    using b(6) [of y] b(6) [of "year r"]
    by (auto simp: summary_record_step or_zero_eq split: option.splits)
  from t c show ?thesis
    unfolding summary_bounded_def by blast
qed

lemma summary_fold_js_exact:
  assumes "summary_bounded B s" and "B + sum_list (map (\<lambda>r. \<bar>amount r\<bar>) recs) \<le> 2 ^ 53"
  shows "foldl (summary_record_js cats) s recs = foldl (summary_record cats) s recs
       \<and> summary_bounded (B + sum_list (map (\<lambda>r. \<bar>amount r\<bar>) recs))
            (foldl (summary_record cats) s recs)"
  using assms
proof (induction recs arbitrary: s B)
  case Nil
  then show ?case by simp
next
  case (Cons r recs)
  have nonneg: "0 \<le> sum_list (map (\<lambda>r. \<bar>amount r\<bar>) recs)"
    by (rule sum_list_nonneg) auto
  with Cons.prems(2) have small: "B + \<bar>amount r\<bar> \<le> 2 ^ 53"
    by simp
  have step: "summary_record_js cats s r = summary_record cats s r"
    using Cons.prems(1) small by (rule summary_record_js_exact)
  have bounded: "summary_bounded (B + \<bar>amount r\<bar>) (summary_record cats s r)"
    using Cons.prems(1) by (rule summary_record_bounded)
  have rest: "(B + \<bar>amount r\<bar>) + sum_list (map (\<lambda>r. \<bar>amount r\<bar>) recs) \<le> 2 ^ 53"
    using Cons.prems(2) by simp
  from Cons.IH [OF bounded rest] show ?case
    by (simp add: step add.assoc)
qed

lemma summary_init_bounded: "summary_bounded 0 (foldl summary_init_year summary_start ys)"
  by (simp add: summary_bounded_def summary_init_fold summary_start_def or_zero_def)

lemma summary_net_year_js_exact:
  assumes "summary_bounded B s" and "B \<le> 2 ^ 53"
  shows "summary_net_year_js s y = summary_net_year s y"
proof -
  have "cell_minus_js (v_incomeByYear s y) (v_expensesByYear s y)
      = cell_minus (v_incomeByYear s y) (v_expensesByYear s y)"
  proof (cases "v_incomeByYear s y")
    case None
    then show ?thesis by simp
  next
    case i: (Some a)
    show ?thesis
    proof (cases "v_expensesByYear s y")
      case None
      with i show ?thesis by simp
    next
      case (Some b)
      from summary_boundedD(6) [OF assms(1), of y] i Some have "\<bar>a\<bar> + \<bar>b\<bar> \<le> B"
        by (simp add: or_zero_eq)
      with assms(2) have "double_sub a b = a - b"
        by (intro double_sub_exact) linarith
      with i Some show ?thesis by simp
    qed
  qed
  then show ?thesis
    by (simp add: summary_net_year_js_def summary_net_year_def)
qed

lemma summary_net_year_bounded:
  "summary_bounded B s \<Longrightarrow> summary_bounded B (summary_net_year s y)"
  by (simp add: summary_bounded_def summary_net_year_def)

lemma summary_net_fold_js_exact:
  assumes "summary_bounded B s" and "B \<le> 2 ^ 53"
  shows "foldl summary_net_year_js s ys = foldl summary_net_year s ys"
  using assms(1)
proof (induction ys arbitrary: s)
  case Nil
  show ?case by simp
next
  case (Cons y ys)
  have "summary_net_year_js s y = summary_net_year s y"
    using Cons.prems assms(2) by (rule summary_net_year_js_exact)
  moreover have "summary_bounded B (summary_net_year s y)"
    using Cons.prems by (rule summary_net_year_bounded)
  ultimately show ?case
    using Cons.IH by simp
qed

lemma summary_net_fold_bounded:
  "summary_bounded B s \<Longrightarrow> summary_bounded B (foldl summary_net_year s ys)"
  by (induction ys arbitrary: s) (simp_all add: summary_net_year_bounded)

lemma calculateSummary_js_exact:
  assumes "exactly_summable recs"
  shows "calculateSummary_js recs cats ys = calculateSummary recs cats ys"
proof -
  define B where "B = sum_list (map (\<lambda>r. \<bar>amount r\<bar>) recs)"
  define s0 where "s0 = foldl summary_init_year summary_start ys"
  define s1 where "s1 = foldl (summary_record cats) s0 recs"
  define s2 where "s2 = foldl summary_net_year s1 ys"
  have B: "B \<le> 2 ^ 53"
    using assms by (simp add: exactly_summable_def B_def)
  have "summary_bounded 0 s0"
    unfolding s0_def by (rule summary_init_bounded)
  from summary_fold_js_exact [OF this, of recs cats] B
  have fold: "foldl (summary_record_js cats) s0 recs = s1" and b1: "summary_bounded B s1"
    by (simp_all add: B_def s1_def)
  have net: "foldl summary_net_year_js s1 ys = s2"
    unfolding s2_def using b1 B by (rule summary_net_fold_js_exact)
  have "summary_bounded B s2"
    unfolding s2_def using b1 by (rule summary_net_fold_bounded)
  from summary_boundedD(5) [OF this] B
  have "double_sub (v_totalIncome s2) (v_totalExpenses s2) = v_totalIncome s2 - v_totalExpenses s2"
    by (intro double_sub_exact) linarith
  then show ?thesis
    by (simp add: calculateSummary_js_def calculateSummary_def Let_def
        s0_def [symmetric] fold s1_def [symmetric] net s2_def [symmetric])
qed


lemma accumulate_js_exact:
  "\<bar>or_zero c\<bar> + \<bar>a\<bar> \<le> 2 ^ 53 \<Longrightarrow> accumulate_js c a = accumulate c a"
  by (auto simp: accumulate_js_def accumulate_def or_zero_def double_add_exact
      split: option.splits)

lemma pivot_boundedD:
  assumes "pivot_bounded B s"
  shows "\<bar>or_zero (cell (v_byCategory s) c y)\<bar> \<le> B"
    and "\<bar>or_zero (cell (v_byYear s) y c)\<bar> \<le> B"
  using assms unfolding pivot_bounded_def by blast+

lemma pivot_add_exact:
  assumes "pivot_bounded B s" and "B + \<bar>amount r\<bar> \<le> 2 ^ 53"
    and "cm (category_id r) = Some c" and "plain_key (cat_name c)"
  shows "pivot_add (cat_name c) s r = run_of (pivot_record cm s r)"
proof -
  define row where "row = (case v_byCategory s (cat_name c) of None \<Rightarrow> Map.empty | Some m \<Rightarrow> m)"
  have row: "row (year r) = cell (v_byCategory s) (cat_name c) (year r)"
    by (simp add: row_def cell_def split: option.splits)
  have "\<bar>or_zero (row (year r))\<bar> + \<bar>amount r\<bar> \<le> 2 ^ 53"
    using pivot_boundedD(1) [OF assms(1), of "cat_name c" "year r"] assms(2)
    unfolding row by linarith
  then have acc_row: "accumulate_js (row (year r)) (amount r) = accumulate (row (year r)) (amount r)"
    by (rule accumulate_js_exact)
  have acc_col: "accumulate_js (col (cat_name c)) (amount r) = accumulate (col (cat_name c)) (amount r)"
    if "v_byYear s (year r) = Some col" for col
  proof -
    from that have "col (cat_name c) = cell (v_byYear s) (year r) (cat_name c)"
      by (simp add: cell_def)
    then have "\<bar>or_zero (col (cat_name c))\<bar> + \<bar>amount r\<bar> \<le> 2 ^ 53"
      using pivot_boundedD(2) [OF assms(1), of "year r" "cat_name c"] assms(2) by simp
    then show ?thesis by (rule accumulate_js_exact)
  qed
  show ?thesis
  proof (cases "v_byYear s (year r)")
    case None
    with assms(3,4) show ?thesis
      by (simp add: pivot_add_def pivot_record_def run_of_def plain_key_def Let_def)
  next
    case (Some col)
    with assms(3,4) acc_row acc_col [OF Some] show ?thesis
      by (simp add: pivot_add_def pivot_record_def run_of_def plain_key_def Let_def
          row_def [symmetric])
  qed
qed

lemma pivot_record_js_exact:
  assumes "pivot_bounded B s" and "B + \<bar>amount r\<bar> \<le> 2 ^ 53"
    and "plain_key (category_id r)"
    and "\<And>c. cm (category_id r) = Some c \<Longrightarrow> plain_key (cat_name c)"
  shows "pivot_record_js cm s r = run_of (pivot_record cm s r)"
proof (cases "cm (category_id r)")
  case None
  with assms(3) show ?thesis
    by (simp add: pivot_record_js_def object_get_plain pivot_record_def run_of_def)
next
  case (Some c)
  have "pivot_record_js cm s r = pivot_add (cat_name c) s r"
    using Some assms(3) by (simp add: pivot_record_js_def object_get_plain)
  also have "\<dots> = run_of (pivot_record cm s r)"
    using assms(1,2) Some assms(4) [OF Some] by (rule pivot_add_exact)
  finally show ?thesis .
qed

lemma pivot_record_bounded:
  assumes "pivot_record cm s r = Inr s'" and "pivot_bounded B s"
  shows "pivot_bounded (B + \<bar>amount r\<bar>) s'"
proof -
  note b = pivot_boundedD [OF assms(2)]
  have "\<bar>or_zero (cell (v_byCategory s') c y)\<bar> \<le> B + \<bar>amount r\<bar>" for c y
    using b(1) [of c y]
    by (auto simp: pivot_record_byCategory [OF assms(1)] or_zero_eq split: option.splits)
  moreover have "\<bar>or_zero (cell (v_byYear s') y c)\<bar> \<le> B + \<bar>amount r\<bar>" for c y
    using b(2) [of y c]
    by (auto simp: pivot_record_byYear [OF assms(1)] or_zero_eq split: option.splits)
  ultimately show ?thesis
    unfolding pivot_bounded_def by blast
qed

lemma forEach_pivot_js_exact:
  assumes "pivot_bounded B s" and "B + sum_list (map (\<lambda>r. \<bar>amount r\<bar>) recs) \<le> 2 ^ 53"
    and "\<forall>r \<in> set recs. plain_key (category_id r)"
    and "\<forall>k c. cm k = Some c \<longrightarrow> plain_key (cat_name c)"
  shows "forEach_run (pivot_record_js cm) recs s = run_of (forEach (pivot_record cm) recs s)"
  using assms(1,2,3)
proof (induction recs arbitrary: s B)
  case Nil
  show ?case by (simp add: run_of_def)
next
  case (Cons r recs)
  have nonneg: "0 \<le> sum_list (map (\<lambda>r. \<bar>amount r\<bar>) recs)"
    by (rule sum_list_nonneg) auto
  with Cons.prems(2) have small: "B + \<bar>amount r\<bar> \<le> 2 ^ 53"
    by simp
  have step: "pivot_record_js cm s r = run_of (pivot_record cm s r)"
    using Cons.prems(1) small
  proof (rule pivot_record_js_exact)
    show "plain_key (category_id r)" using Cons.prems(3) by simp
    show "plain_key (cat_name c)" if "cm (category_id r) = Some c" for c
      using assms(4) that by blast
  qed
  show ?case
  proof (cases "pivot_record cm s r")
    case (Inl e)
    with step show ?thesis by (simp add: run_of_def)
  next
    case (Inr s1)
    have "pivot_bounded (B + \<bar>amount r\<bar>) s1"
      using Inr Cons.prems(1) by (rule pivot_record_bounded)
    moreover have "(B + \<bar>amount r\<bar>) + sum_list (map (\<lambda>r. \<bar>amount r\<bar>) recs) \<le> 2 ^ 53"
      using Cons.prems(2) by simp
    moreover have "\<forall>r \<in> set recs. plain_key (category_id r)"
      using Cons.prems(3) by simp
    ultimately have "forEach_run (pivot_record_js cm) recs s1
        = run_of (forEach (pivot_record cm) recs s1)"
      by (rule Cons.IH)
    with step Inr show ?thesis by (simp add: run_of_def)
  qed
qed

lemma plain_inputD:
  assumes "plain_input recs cs"
  shows "\<forall>r \<in> set recs. plain_key (category_id r)"
    and "\<forall>k c. build_categoryMap cs k = Some c \<longrightarrow> plain_key (cat_name c)"
    and "''__proto__'' \<notin> cat_id ` set cs"
proof -
  from assms have recs: "\<forall>r \<in> set recs. plain_key (category_id r)"
    and cs: "\<forall>c \<in> set cs. plain_key (cat_id c) \<and> plain_key (cat_name c)"
    by (simp_all add: plain_input_def list_all_iff)
  from recs show "\<forall>r \<in> set recs. plain_key (category_id r)" .
  from cs show "\<forall>k c. build_categoryMap cs k = Some c \<longrightarrow> plain_key (cat_name c)"
    using build_categoryMap_in_list by blast
  have "\<not> plain_key ''__proto__''"
    by (simp add: plain_key_def object_prototype_keys_def)
  with cs show "''__proto__'' \<notin> cat_id ` set cs"
    by auto
qed

lemma transformCashflowData_js_exact:
  assumes "plain_input recs cs" and "exactly_summable recs"
  shows "transformCashflowData_js recs cs f = run_of (transformCashflowData recs cs f)"
proof -
  define cm where "cm = build_categoryMap cs"
  define s0 where "s0 = foldl pivot_init_year
     \<lparr>v_byCategory = Map.empty, v_byYear = Map.empty, v_categoryNames = []\<rparr> (extract_years recs)"
  note p = plain_inputD [OF assms(1)]
  have "pivot_bounded 0 s0"
    by (simp add: pivot_bounded_def s0_def pivot_init_fold cell_def or_zero_def)
  moreover have "0 + sum_list (map (\<lambda>r. \<bar>amount r\<bar>) recs) \<le> 2 ^ 53"
    using assms(2) by (simp add: exactly_summable_def)
  ultimately have loop: "forEach_run (pivot_record_js cm) recs s0
      = run_of (forEach (pivot_record cm) recs s0)"
    using p(1) p(2) unfolding cm_def by (rule forEach_pivot_js_exact)
  have summ: "calculateSummary_js recs cm (extract_years recs)
      = calculateSummary recs cm (extract_years recs)"
    using assms(2) by (rule calculateSummary_js_exact)
  have "transformCashflowData_js recs cs f = pivot_loop cm recs f"
    using p(3) by (simp add: transformCashflowData_js_def build_categoryMap_js_def cm_def)
  also have "\<dots> = run_of (transformCashflowData recs cs f)"
    by (simp add: pivot_loop_def transformCashflowData_def Let_def cm_def [symmetric]
        s0_def [symmetric] loop summ run_of_def split: sum.splits)
  finally show ?thesis .
qed


lemma run_of_Inr: "run_of (Inr v) = Returns v"
  by (simp add: run_of_def)

lemma exactly_summable_mset:
  "mset recs' = mset recs \<Longrightarrow> exactly_summable recs' = exactly_summable recs"
proof -
  assume eq: "mset recs' = mset recs"
  have "mset (map (\<lambda>r. \<bar>amount r\<bar>) recs') = mset (map (\<lambda>r. \<bar>amount r\<bar>) recs)"
    by (simp add: eq)
  then have "sum_mset (mset (map (\<lambda>r. \<bar>amount r\<bar>) recs'))
           = sum_mset (mset (map (\<lambda>r. \<bar>amount r\<bar>) recs))"
    by simp
  then show ?thesis
    by (simp only: exactly_summable_def sum_mset_sum_list)
qed

lemma plain_input_mset:
  "mset recs' = mset recs \<Longrightarrow> plain_input recs' cs = plain_input recs cs"
  by (auto simp: plain_input_def list_all_iff dest: mset_eq_setD)

section \<open>The summary figures\<close>



section \<open>The guard of the fetch routine\<close>

text \<open>
  C10. When \<^verbatim>\<open>fetchData\<close> runs with an empty \<^verbatim>\<open>fileId\<close>, the error state becomes an Error
  with the message "File ID is required", \<open>isLoading\<close> becomes false, no store query is
  issued (the query log is unchanged) and the data state is unchanged.
\<close>

theorem fetchData_empty_fileId:
  "error (fst (fetchData st [] sl)) = Some (Error ''File ID is required'')
   \<and> isLoading (fst (fetchData st [] sl)) = False
   \<and> data (fst (fetchData st [] sl)) = data (fst sl)
   \<and> snd (fetchData st [] sl) = snd sl"
  by (simp add: fetchData_def)

text \<open>With any other \<^verbatim>\<open>fileId\<close> the file query is issued, so the log does record queries.\<close>

lemma fetchData_queries_file:
  "fileId \<noteq> [] \<Longrightarrow>
   \<exists>qs. snd (fetchData st fileId sl) = snd sl @ Select_uploaded_files fileId # qs"
  by (auto simp: fetchData_def fetch_try_def split: sum.splits option.splits list.splits)

section \<open>The list of years\<close>

text \<open>
  C1 says that \<open>years\<close> is in ascending numeric order. \<^verbatim>\<open>transformCashflowData\<close> sorts the
  distinct years with \<^verbatim>\<open>sort()\<close> and no comparator, which compares the decimal numerals as
  strings: for records of the years 1, 2 and 10 the result is 1, 10, 2. The other two parts
  of the claim hold for every input: \<open>years\<close> has no duplicates and holds exactly the years of
  the records.
\<close>

theorem years_sorted_as_strings:
  "\<exists>p. transformCashflowData year_index_records example_categories None = Inr p
     \<and> years p = [1, 10, 2]"
proof -
  obtain p where p: "transformCashflowData year_index_records example_categories None = Inr p"
    and pr: "pivot_result year_index_records (build_categoryMap example_categories) p"
    by (rule transformCashflowData_result)
  have "extract_years year_index_records = [1, 10, 2]"
    by code_simp
  with p pivot_resultD(1) [OF pr] show ?thesis
    by simp
qed

lemma years_distinct_and_complete:
  "\<exists>p. transformCashflowData recs cs f = Inr p
     \<and> distinct (years p) \<and> set (years p) = year ` set recs"
proof -
  obtain p where p: "transformCashflowData recs cs f = Inr p"
    and pr: "pivot_result recs (build_categoryMap cs) p"
    by (rule transformCashflowData_result)
  with pivot_resultD(1) [OF pr] show ?thesis
    by (simp add: distinct_extract_years set_extract_years)
qed

section \<open>Income and expense totals\<close>




section \<open>The two views of the pivot\<close>

text \<open>
  C3 says that for every list of records and of categories the sums of \<^verbatim>\<open>byCategory[c][y]\<close>
  and of \<^verbatim>\<open>byYear[y][c]\<close> over the category names agree. \<^verbatim>\<open>byCategory\<close> and \<^verbatim>\<open>byYear[y]\<close> are plain
  objects: for one record of a category named "constructor" the code finds the inherited
  \<^verbatim>\<open>constructor\<close> under that name in both, makes no row in \<^verbatim>\<open>byCategory\<close> and stores a string in
  \<^verbatim>\<open>byYear[2022]\<close>, so that the run leaves the two views without the amount of the record.
\<close>

theorem constructor_name_leaves_the_views:
  "transformCashflowData_js one_record [constructor_category] None = Leaves_model ''constructor''"
proof -
  have "case transformCashflowData_js one_record [constructor_category] None
        of Returns p \<Rightarrow> False
         | Throws e \<Rightarrow> False
         | Leaves_model k \<Rightarrow> k = ''constructor''"
    by code_simp
  then show ?thesis
    by (simp split: run.splits)
qed


text \<open>
  For ids and names that are not names of inherited properties and for exactly summable
  amounts the two sums agree, over finitely many names, and are the sum of the amounts of the
  records of the year that resolve to a category.
\<close>

lemma pivot_views_agree_plain:
  assumes "plain_input recs cs" and "exactly_summable recs"
  shows "\<exists>p. transformCashflowData_js recs cs f = Returns p
     \<and> (\<forall>y \<in> set (years p).
           finite {c. cell (byCategory p) c y \<noteq> None}
         \<and> finite {c. cell (byYear p) y c \<noteq> None}
         \<and> (\<Sum>c \<in> {c. cell (byCategory p) c y \<noteq> None}. the (cell (byCategory p) c y))
           = (\<Sum>c \<in> {c. cell (byYear p) y c \<noteq> None}. the (cell (byYear p) y c))
         \<and> (\<Sum>c \<in> {c. cell (byYear p) y c \<noteq> None}. the (cell (byYear p) y c))
           = resolved_amounts (build_categoryMap cs) y recs)"
  using pivot_views_agree_exact [of recs cs f]
  by (auto simp: transformCashflowData_js_exact [OF assms] run_of_Inr)

section \<open>Records without a category\<close>

text \<open>
  C6 says that a record whose \<open>category_id\<close> matches no category of the list is skipped.
  \<^verbatim>\<open>categoryMap\<close> is a plain object: for the id "constructor", which matches no category of the
  example, the lookup finds the inherited \<^verbatim>\<open>constructor\<close>, the test \<^verbatim>\<open>!category\<close> does not skip
  the record, and its amount is counted under the name "Object", which appears in
  \<open>categoryNames\<close>.
\<close>

theorem constructor_id_is_not_skipped:
  "category_id constructor_record \<notin> cat_id ` set example_categories
   \<and> (\<exists>p. transformCashflowData_js (example_records @ [constructor_record]) example_categories None
            = Returns p
          \<and> categoryNames p = [''Object'', ''Rent'', ''Sales'']
          \<and> cell (byCategory p) ''Object'' 2023 = Some 70
          \<and> cell (byYear p) 2023 ''Object'' = Some 70)"
proof
  show "category_id constructor_record \<notin> cat_id ` set example_categories"
    by (simp add: constructor_record_def example_categories_def)
  have "case transformCashflowData_js (example_records @ [constructor_record]) example_categories None
        of Returns p \<Rightarrow> categoryNames p = [''Object'', ''Rent'', ''Sales'']
             \<and> cell (byCategory p) ''Object'' 2023 = Some 70
             \<and> cell (byYear p) 2023 ''Object'' = Some 70
         | Throws e \<Rightarrow> False
         | Leaves_model k \<Rightarrow> False"
    by code_simp
  then show "\<exists>p. transformCashflowData_js (example_records @ [constructor_record]) example_categories None
            = Returns p
          \<and> categoryNames p = [''Object'', ''Rent'', ''Sales'']
          \<and> cell (byCategory p) ''Object'' 2023 = Some 70
          \<and> cell (byYear p) 2023 ''Object'' = Some 70"
    by (auto split: run.splits)
qed


text \<open>
  A record whose id matches no category and is not the name of an inherited property is
  skipped: for plain ids and names and exactly summable amounts, the pivots with the record
  and without it have the same \<open>byCategory\<close>, cells of \<open>byYear\<close>, \<open>categoryNames\<close>, totals and
  yearly figures.
\<close>

lemma unmatched_record_is_skipped_plain:
  assumes "category_id r \<notin> cat_id ` set cs"
    and "plain_input (rs1 @ r # rs2) cs" and "exactly_summable (rs1 @ r # rs2)"
  shows "\<exists>p q. transformCashflowData_js (rs1 @ r # rs2) cs f = Returns p
          \<and> transformCashflowData_js (rs1 @ rs2) cs f = Returns q
          \<and> byCategory p = byCategory q
          \<and> (\<forall>y c. cell (byYear p) y c = cell (byYear q) y c)
          \<and> categoryNames p = categoryNames q
          \<and> set (categoryNames p) \<subseteq> cat_name ` set cs
          \<and> totalIncome (summary p) = totalIncome (summary q)
          \<and> totalExpenses (summary p) = totalExpenses (summary q)
          \<and> totalNet (summary p) = totalNet (summary q)
          \<and> (\<forall>y. entry (incomeByYear (summary p) y) = entry (incomeByYear (summary q) y)
                \<and> entry (expensesByYear (summary p) y) = entry (expensesByYear (summary q) y)
                \<and> entry (netByYear (summary p) y) = entry (netByYear (summary q) y))"
proof -
  have plain: "plain_input (rs1 @ rs2) cs"
    using assms(2) by (simp add: plain_input_def)
  have "sum_list (map (\<lambda>r. \<bar>amount r\<bar>) (rs1 @ rs2))
      \<le> sum_list (map (\<lambda>r. \<bar>amount r\<bar>) (rs1 @ r # rs2))"
    by simp
  with assms(3) have summable: "exactly_summable (rs1 @ rs2)"
    unfolding exactly_summable_def by linarith
  from unmatched_record_is_skipped_exact [OF assms(1), of rs1 rs2 f "[]"]
  obtain p q where p: "transformCashflowData (rs1 @ r # rs2) cs f = Inr p"
    and q: "transformCashflowData (rs1 @ rs2) cs f = Inr q"
    and same: "byCategory p = byCategory q"
      "\<forall>y c. cell (byYear p) y c = cell (byYear q) y c"
      "categoryNames p = categoryNames q"
      "set (categoryNames p) \<subseteq> cat_name ` set cs"
      "totalIncome (summary p) = totalIncome (summary q)"
      "totalExpenses (summary p) = totalExpenses (summary q)"
      "totalNet (summary p) = totalNet (summary q)"
      "\<forall>y. entry (incomeByYear (summary p) y) = entry (incomeByYear (summary q) y)
            \<and> entry (expensesByYear (summary p) y) = entry (expensesByYear (summary q) y)
            \<and> entry (netByYear (summary p) y) = entry (netByYear (summary q) y)"
    by blast
  have "transformCashflowData_js (rs1 @ r # rs2) cs f = Returns p"
    by (simp add: transformCashflowData_js_exact [OF assms(2,3)] p run_of_Inr)
  moreover have "transformCashflowData_js (rs1 @ rs2) cs f = Returns q"
    by (simp add: transformCashflowData_js_exact [OF plain summable] q run_of_Inr)
  ultimately show ?thesis
    using same by blast
qed

section \<open>The order of the records\<close>

text \<open>
  C7 says that no permutation of the records changes a total. The code adds doubles, and
  their sum is rounded: the amounts \<open>2^53\<close>, 1, 1 of one income category add up to \<open>2^53\<close> in
  this order and to \<open>2^53 + 2\<close> in the reverse order.
\<close>

theorem rounded_totals_depend_on_order_counterexample:
  "mset (rev large_amounts) = mset large_amounts
   \<and> totalIncome (calculateSummary_js large_amounts (build_categoryMap example_categories) [2022])
       = 9007199254740992
   \<and> totalIncome (calculateSummary_js (rev large_amounts) (build_categoryMap example_categories) [2022])
       = 9007199254740994"
proof (intro conjI)
  show "mset (rev large_amounts) = mset large_amounts"
    by simp
  show "totalIncome (calculateSummary_js large_amounts (build_categoryMap example_categories) [2022])
       = 9007199254740992"
    by code_simp
  show "totalIncome (calculateSummary_js (rev large_amounts) (build_categoryMap example_categories) [2022])
       = 9007199254740994"
    by code_simp
qed

text \<open>
  C7, amended. For every list of records whose amounts are integers with absolute values
  summing to at most \<open>2^53\<close>, for categories and records whose ids and names are not names
  of properties of \<^verbatim>\<open>Object.prototype\<close>, and for every permutation of the records,
  \<^verbatim>\<open>transformCashflowData\<close> returns pivots with equal \<open>byCategory\<close> and \<open>byYear\<close> maps and equal
  summaries, and \<^verbatim>\<open>calculateSummary\<close> returns equal summaries (yearly income, expense and net
  figures and the three totals) for any given lookup and years.
\<close>

theorem exact_totals_independent_of_record_order:
  assumes "mset recs' = mset recs" and "exactly_summable recs" and "plain_input recs cs"
  shows "(\<exists>p p'. transformCashflowData_js recs cs f = Returns p
            \<and> transformCashflowData_js recs' cs f = Returns p'
            \<and> byCategory p' = byCategory p \<and> byYear p' = byYear p \<and> summary p' = summary p)
       \<and> calculateSummary_js recs' cats ys = calculateSummary_js recs cats ys"
proof -
  have sum': "exactly_summable recs'"
    using exactly_summable_mset [OF assms(1)] assms(2) by simp
  have plain': "plain_input recs' cs"
    using plain_input_mset [OF assms(1), of cs] assms(3) by simp
  from totals_independent_of_record_order_exact [OF assms(1), of cs f cats ys]
  obtain p p' where "transformCashflowData recs cs f = Inr p"
    "transformCashflowData recs' cs f = Inr p'"
    "byCategory p' = byCategory p" "byYear p' = byYear p" "summary p' = summary p"
    and calc: "calculateSummary recs' cats ys = calculateSummary recs cats ys"
    by blast
  then have "transformCashflowData_js recs cs f = Returns p"
    "transformCashflowData_js recs' cs f = Returns p'"
    by (simp_all add: transformCashflowData_js_exact assms(2,3) sum' plain' run_of_Inr)
  moreover have "calculateSummary_js recs' cats ys = calculateSummary_js recs cats ys"
    by (simp add: calculateSummary_js_exact assms(2) sum' calc)
  ultimately show ?thesis
    using \<open>byCategory p' = byCategory p\<close> \<open>byYear p' = byYear p\<close> \<open>summary p' = summary p\<close>
    by blast
qed

theorem exact_totals_independent_of_record_order_witness:
  "(\<exists>p p'. transformCashflowData_js example_records example_categories None = Returns p
            \<and> transformCashflowData_js (rev example_records) example_categories None = Returns p'
            \<and> byCategory p' = byCategory p \<and> byYear p' = byYear p \<and> summary p' = summary p)
   \<and> calculateSummary_js (rev example_records) (build_categoryMap example_categories) [2022]
       = calculateSummary_js example_records (build_categoryMap example_categories) [2022]"
proof -
  have h1: "mset (rev example_records) = mset example_records"
    by simp
  have h2: "exactly_summable example_records"
    by (simp add: exactly_summable_def example_records_def)
  have h3: "plain_input example_records example_categories"
    by (simp add: plain_input_def plain_key_def object_prototype_keys_def
        example_records_def example_categories_def)
  show ?thesis
    using exact_totals_independent_of_record_order [OF h1 h2 h3]
    by blast
qed

section \<open>Facts about the task view\<close>

lemma find_first_index:
  "(case find P xs of None \<Rightarrow> False | Some x \<Rightarrow> Q x)
     = (\<exists>i < length xs. P (xs ! i) \<and> (\<forall>j < i. \<not> P (xs ! j)) \<and> Q (xs ! i))"
proof (induction xs)
  case Nil
  show ?case by simp
next
  case (Cons x xs)
  show ?case
  proof (cases "P x")
    case True
    have "(\<exists>i < length (x # xs). P ((x # xs) ! i) \<and> (\<forall>j < i. \<not> P ((x # xs) ! j)) \<and> Q ((x # xs) ! i))
        = Q x"
    proof
      assume "\<exists>i < length (x # xs). P ((x # xs) ! i) \<and> (\<forall>j < i. \<not> P ((x # xs) ! j)) \<and> Q ((x # xs) ! i)"
      then obtain i where i: "\<forall>j < i. \<not> P ((x # xs) ! j)" "Q ((x # xs) ! i)"
        by blast
      have "i = 0"
      proof (rule ccontr)
        assume "i \<noteq> 0"
        then have "0 < i" by simp
        with i(1) have "\<not> P ((x # xs) ! 0)" by blast
        with True show False by simp
      qed
      with i(2) show "Q x" by simp
    next
      assume "Q x"
      with True show "\<exists>i < length (x # xs). P ((x # xs) ! i) \<and> (\<forall>j < i. \<not> P ((x # xs) ! j)) \<and> Q ((x # xs) ! i)"
        by (intro exI [of _ 0]) simp
    qed
    with True show ?thesis by simp
  next
    case False
    have "(\<exists>i < length (x # xs). P ((x # xs) ! i) \<and> (\<forall>j < i. \<not> P ((x # xs) ! j)) \<and> Q ((x # xs) ! i))
        = (\<exists>i < length xs. P (xs ! i) \<and> (\<forall>j < i. \<not> P (xs ! j)) \<and> Q (xs ! i))"
    proof
      assume "\<exists>i < length (x # xs). P ((x # xs) ! i) \<and> (\<forall>j < i. \<not> P ((x # xs) ! j)) \<and> Q ((x # xs) ! i)"
      then obtain i where i: "i < length (x # xs)" "P ((x # xs) ! i)"
        "\<forall>j < i. \<not> P ((x # xs) ! j)" "Q ((x # xs) ! i)"
        by blast
      from i(2) False obtain k where k: "i = Suc k"
        by (cases i) simp_all
      have "\<forall>j < k. \<not> P (xs ! j)"
      proof (intro allI impI)
        fix j
        assume "j < k"
        then have "Suc j < i" using k by simp
        with i(3) have "\<not> P ((x # xs) ! Suc j)" by blast
        then show "\<not> P (xs ! j)" by simp
      qed
      with i k show "\<exists>i < length xs. P (xs ! i) \<and> (\<forall>j < i. \<not> P (xs ! j)) \<and> Q (xs ! i)"
        by (intro exI [of _ k]) simp
    next
      assume "\<exists>i < length xs. P (xs ! i) \<and> (\<forall>j < i. \<not> P (xs ! j)) \<and> Q (xs ! i)"
      then obtain i where i: "i < length xs" "P (xs ! i)" "\<forall>j < i. \<not> P (xs ! j)" "Q (xs ! i)"
        by blast
      have "\<forall>j < Suc i. \<not> P ((x # xs) ! j)"
      proof (intro allI impI)
        fix j
        assume "j < Suc i"
        show "\<not> P ((x # xs) ! j)"
        proof (cases j)
          case 0
          with False show ?thesis by simp
        next
          case (Suc m)
          with \<open>j < Suc i\<close> have "m < i" by simp
          with i(3) Suc show ?thesis by simp
        qed
      qed
      with i show "\<exists>i < length (x # xs). P ((x # xs) ! i) \<and> (\<forall>j < i. \<not> P ((x # xs) ! j)) \<and> Q ((x # xs) ! i)"
        by (intro exI [of _ "Suc i"]) simp
    qed
    with False Cons.IH show ?thesis by simp
  qed
qed

lemma merge_task_state_isComplete:
  "state_isComplete (merge_task_state files responses t)
     = Some (first_response_isComplete files responses t)"
proof -
  let ?P = "\<lambda>r. response_task_id r = task_id t"
  have "truthy (case find ?P responses of None \<Rightarrow> None | Some r \<Rightarrow> response_value r)
      = (case find ?P responses of None \<Rightarrow> False | Some r \<Rightarrow> truthy (response_value r))"
    by (simp add: truthy_def split: option.splits)
  also have "\<dots> = (\<exists>i < length responses. ?P (responses ! i) \<and> (\<forall>j < i. \<not> ?P (responses ! j))
           \<and> truthy (response_value (responses ! i)))"
    by (rule find_first_index)
  finally show ?thesis
    by (simp add: merge_task_state_def first_response_isComplete_def Let_def list_ex_iff)
qed

lemma push_task_keys: "set (map fst (push_task k t kvs)) = insert k (set (map fst kvs))"
proof (induction kvs)
  case Nil
  show ?case by simp
next
  case (Cons kv kvs)
  obtain k' ts where kv: "kv = (k', ts)" by (cases kv)
  show ?case
  proof (cases "k = k'")
    case True
    then show ?thesis by (auto simp: kv)
  next
    case False
    with Cons.IH show ?thesis by (auto simp: kv)
  qed
qed

lemma push_task_distinct: "distinct (map fst kvs) \<Longrightarrow> distinct (map fst (push_task k t kvs))"
proof (induction kvs)
  case Nil
  show ?case by simp
next
  case (Cons kv kvs)
  obtain k' ts where kv: "kv = (k', ts)" by (cases kv)
  from Cons.prems have "k' \<notin> set (map fst kvs)" "distinct (map fst kvs)"
    by (simp_all add: kv)
  with Cons.IH show ?case
    by (simp add: kv push_task_keys del: set_map)
qed

lemma push_task_nonempty:
  "\<forall>kv \<in> set kvs. snd kv \<noteq> [] \<Longrightarrow> \<forall>kv \<in> set (push_task k t kvs). snd kv \<noteq> []"
proof (induction kvs)
  case Nil
  show ?case by simp
next
  case (Cons kv kvs)
  obtain k' ts where kv: "kv = (k', ts)" by (cases kv)
  from Cons.prems have "\<forall>kv \<in> set kvs. snd kv \<noteq> []" by simp
  from Cons.IH [OF this] Cons.prems show ?case
    by (cases "k = k'") (simp_all add: kv)
qed

lemma group_task_push:
  "\<exists>k ct. group_task kvs t = push_task k ct kvs"
  unfolding group_task_def Let_def by blast

lemma grouped_invariant:
  assumes "distinct (map fst kvs)" and "\<forall>kv \<in> set kvs. snd kv \<noteq> []"
  shows "distinct (map fst (foldl group_task kvs ts))
       \<and> (\<forall>kv \<in> set (foldl group_task kvs ts). snd kv \<noteq> [])"
  using assms
proof (induction ts arbitrary: kvs)
  case Nil
  then show ?case by simp
next
  case (Cons t ts)
  obtain k ct where step: "group_task kvs t = push_task k ct kvs"
    using group_task_push by blast
  have "distinct (map fst (group_task kvs t))"
    unfolding step using Cons.prems(1) by (rule push_task_distinct)
  moreover have "\<forall>kv \<in> set (group_task kvs t). snd kv \<noteq> []"
    unfolding step using Cons.prems(2) by (rule push_task_nonempty)
  ultimately show ?case
    using Cons.IH by simp
qed

lemma mset_object_entries: "mset (object_entries kvs) = mset kvs"
  by (simp add: object_entries_def mset_array_sort)

lemma set_object_entries: "set (object_entries kvs) = set kvs"
  using mset_object_entries [of kvs] by (metis set_mset_mset)

lemma name_make_category: "name (make_category kv) = fst kv"
  by (cases kv) (simp add: make_category_def)

lemma set_processTasksAndFiles:
  "set (processTasksAndFiles lc ts files responses) = make_category ` set (foldl group_task [] ts)"
  by (simp add: processTasksAndFiles_def Let_def set_array_sort set_object_entries)

lemma set_insert_sorted: "set (insert_sorted cmp x xs) = insert x (set xs)"
  using mset_insert_sorted [of cmp x xs] by (metis set_mset_mset set_mset_add_mset_insert)

lemma insert_sorted_sorted:
  assumes trans: "\<And>a b c. cmp a b \<le> 0 \<Longrightarrow> cmp b c \<le> 0 \<Longrightarrow> cmp a c \<le> 0"
    and total: "\<And>y. y \<in> set ys \<Longrightarrow> cmp x y \<le> 0 \<or> cmp y x \<le> 0"
    and sorted: "sorted_wrt (\<lambda>a b. cmp a b \<le> 0) ys"
  shows "sorted_wrt (\<lambda>a b. cmp a b \<le> 0) (insert_sorted cmp x ys)"
  using total sorted
proof (induction ys)
  case Nil
  show ?case by simp
next
  case (Cons y ys)
  show ?case
  proof (cases "cmp x y \<le> 0")
    case True
    have "cmp x z \<le> 0" if "z \<in> set ys" for z
    proof -
      from Cons.prems(2) that have "cmp y z \<le> 0" by simp
      with True show ?thesis by (rule trans)
    qed
    with True Cons.prems(2) show ?thesis by simp
  next
    case False
    with Cons.prems(1) [of y] have yx: "cmp y x \<le> 0" by simp
    have "sorted_wrt (\<lambda>a b. cmp a b \<le> 0) (insert_sorted cmp x ys)"
      using Cons.IH Cons.prems by simp
    with False yx Cons.prems(2) show ?thesis
      by (simp add: set_insert_sorted)
  qed
qed

lemma array_sort_sorted:
  assumes trans: "\<And>a b c. cmp a b \<le> 0 \<Longrightarrow> cmp b c \<le> 0 \<Longrightarrow> cmp a c \<le> 0"
    and total: "\<And>a b. a \<in> set xs \<Longrightarrow> b \<in> set xs \<Longrightarrow> a \<noteq> b \<Longrightarrow> cmp a b \<le> 0 \<or> cmp b a \<le> 0"
    and "distinct xs"
  shows "sorted_wrt (\<lambda>a b. cmp a b \<le> 0) (array_sort cmp xs)"
  using total \<open>distinct xs\<close>
proof (induction xs)
  case Nil
  show ?case by (simp add: array_sort_def)
next
  case (Cons x xs)
  have step: "array_sort cmp (x # xs) = insert_sorted cmp x (array_sort cmp xs)"
    by (simp add: array_sort_def)
  have sorted: "sorted_wrt (\<lambda>a b. cmp a b \<le> 0) (array_sort cmp xs)"
    using Cons.IH Cons.prems by simp
  have total: "cmp x y \<le> 0 \<or> cmp y x \<le> 0" if "y \<in> set (array_sort cmp xs)" for y
  proof -
    from that have y: "y \<in> set xs" by (simp add: set_array_sort)
    with Cons.prems(2) have "x \<noteq> y" by auto
    moreover have "x \<in> set (x # xs)" "y \<in> set (x # xs)" using y by simp_all
    ultimately show ?thesis using Cons.prems(1) by blast
  qed
  show ?case
    unfolding step using trans total sorted by (rule insert_sorted_sorted)
qed

lemma names_processTasksAndFiles:
  "mset (map name (processTasksAndFiles lc ts files responses))
     = mset (map fst (foldl group_task [] ts))"
proof -
  have "mset (map name (processTasksAndFiles lc ts files responses))
      = image_mset name (mset (map make_category (object_entries (foldl group_task [] ts))))"
    by (simp add: processTasksAndFiles_def Let_def mset_array_sort)
  also have "\<dots> = image_mset fst (mset (object_entries (foldl group_task [] ts)))"
    by (simp add: multiset.map_comp comp_def name_make_category)
  finally show ?thesis
    by (simp add: mset_object_entries)
qed

lemma distinct_names_processTasksAndFiles:
  "distinct (map name (processTasksAndFiles lc ts files responses))"
proof -
  have "distinct (map fst (foldl group_task [] ts))"
    using grouped_invariant [of "[]" ts] by simp
  then show ?thesis
    using names_processTasksAndFiles [of lc ts files responses]
    by (metis distinct_count_atmost_1 set_mset_mset)
qed


lemma category_compare_trans:
  assumes "\<forall>a b c. lc a b \<le> 0 \<longrightarrow> lc b c \<le> 0 \<longrightarrow> lc a c \<le> 0"
    and "category_compare lc x y \<le> 0" and "category_compare lc y z \<le> 0"
  shows "category_compare lc x z \<le> 0"
proof -
  from assms(2) have x: "name x \<noteq> ''Uncategorized''"
    by (auto simp: category_compare_def split: if_splits)
  from assms(3) have y: "name y \<noteq> ''Uncategorized''"
    by (auto simp: category_compare_def split: if_splits)
  show ?thesis
  proof (cases "name z = ''Uncategorized''")
    case True
    with x show ?thesis by (simp add: category_compare_def)
  next
    case False
    with x y assms(2,3) have "lc (name x) (name y) \<le> 0" "lc (name y) (name z) \<le> 0"
      by (simp_all add: category_compare_def)
    with assms(1) have "lc (name x) (name z) \<le> 0" by blast
    with x False show ?thesis by (simp add: category_compare_def)
  qed
qed

lemma category_compare_total:
  assumes "\<forall>a b. lc a b \<le> 0 \<or> lc b a \<le> 0" and "name x \<noteq> name y"
  shows "category_compare lc x y \<le> 0 \<or> category_compare lc y x \<le> 0"
  using assms by (auto simp: category_compare_def)

lemma sorted_processTasksAndFiles:
  assumes "\<forall>a b. lc a b \<le> 0 \<or> lc b a \<le> 0"
    and "\<forall>a b c. lc a b \<le> 0 \<longrightarrow> lc b c \<le> 0 \<longrightarrow> lc a c \<le> 0"
  shows "sorted_wrt (\<lambda>x y. category_compare lc x y \<le> 0)
           (processTasksAndFiles lc ts files responses)"
proof -
  define xs where "xs = map make_category (object_entries (foldl group_task [] ts))"
  have res: "processTasksAndFiles lc ts files responses = array_sort (category_compare lc) xs"
    by (simp add: processTasksAndFiles_def Let_def xs_def)
  have "distinct (map name (array_sort (category_compare lc) xs))"
    using distinct_names_processTasksAndFiles [of lc ts files responses] by (simp only: res)
  then have "distinct (map name xs)"
    using mset_array_sort [of "category_compare lc" xs]
    by (metis distinct_count_atmost_1 mset_map set_mset_mset)
  then have inj: "inj_on name (set xs)" and dist: "distinct xs"
    by (simp_all add: distinct_map)
  show ?thesis
    unfolding res
  proof (rule array_sort_sorted)
    fix x y z
    assume "category_compare lc x y \<le> 0" "category_compare lc y z \<le> 0"
    with assms(2) show "category_compare lc x z \<le> 0"
      by (rule category_compare_trans)
  next
    fix x y
    assume "x \<in> set xs" "y \<in> set xs" "x \<noteq> y"
    with inj have "name x \<noteq> name y"
      by (auto dest: inj_onD)
    with assms(1) show "category_compare lc x y \<le> 0 \<or> category_compare lc y x \<le> 0"
      by (rule category_compare_total)
  next
    show "distinct xs" by (rule dist)
  qed
qed

lemma string_less_irrefl: "\<not> string_less a a"
  by (induction a) simp_all

lemma string_less_total: "string_less a b \<or> string_less b a \<or> a = b"
proof (induction a b rule: string_less.induct)
  case (4 c cs d ds)
  show ?case
  proof (cases "c = d")
    case True
    with 4 show ?thesis by auto
  next
    case False
    then have "(of_char c :: nat) \<noteq> of_char d" by simp
    then have "(of_char c :: nat) < of_char d \<or> (of_char d :: nat) < of_char c"
      by (simp only: linorder_neq_iff)
    with False show ?thesis by auto
  qed
qed simp_all

lemma string_less_trans: "string_less a b \<Longrightarrow> string_less b c \<Longrightarrow> string_less a c"
proof (induction a b arbitrary: c rule: string_less.induct)
  case (2 d ds)
  then show ?case by (cases c) simp_all
next
  case (4 x xs y ys)
  from "4.prems"(2) obtain z zs where c: "c = z # zs" by (cases c) simp_all
  show ?case
  proof (cases "x = y")
    case True
    show ?thesis
    proof (cases "y = z")
      case yz: True
      with True "4.prems" c have "string_less xs ys" "string_less ys zs" by simp_all
      then have "string_less xs zs" using "4.IH" True by blast
      with True yz c show ?thesis by simp
    next
      case False
      with True "4.prems" c show ?thesis by simp
    qed
  next
    case False
    with "4.prems"(1) have xy: "(of_char x :: nat) < of_char y" by simp
    show ?thesis
    proof (cases "y = z")
      case True
      with False xy c show ?thesis by simp
    next
      case yz: False
      with "4.prems"(2) c have "(of_char y :: nat) < of_char z" by simp
      with xy have "(of_char x :: nat) < of_char z" by simp
      then have "x \<noteq> z" by auto
      with \<open>(of_char x :: nat) < of_char z\<close> c show ?thesis by simp
    qed
  qed
qed simp_all

lemma code_unit_compare_le: "(code_unit_compare a b \<le> 0) = (\<not> string_less b a)"
  using string_less_irrefl [of a] string_less_trans [of a b a]
  by (auto simp: code_unit_compare_def default_compare_def)

lemma code_unit_compare_order:
  "\<forall>a b. code_unit_compare a b \<le> 0 \<or> code_unit_compare b a \<le> 0"
  "\<forall>a b c. code_unit_compare a b \<le> 0 \<longrightarrow> code_unit_compare b c \<le> 0
       \<longrightarrow> code_unit_compare a c \<le> 0"
proof -
  show "\<forall>a b. code_unit_compare a b \<le> 0 \<or> code_unit_compare b a \<le> 0"
    unfolding code_unit_compare_le
    using string_less_irrefl string_less_trans by blast
  show "\<forall>a b c. code_unit_compare a b \<le> 0 \<longrightarrow> code_unit_compare b c \<le> 0
       \<longrightarrow> code_unit_compare a c \<le> 0"
    unfolding code_unit_compare_le
    using string_less_total string_less_trans by blast
qed

lemma process_zoning:
  "map name (processTasksAndFiles code_unit_compare zoning_tasks [] [])
     = [''Financial Documents'', ''Zoning'', ''Uncategorized'']"
  by code_simp

lemma process_null_category:
  "processTasksAndFiles code_unit_compare [null_category_task] [] [] =
     [\<lparr>name = ''Uncategorized'',
       tasks = [\<lparr>task_id = ''t1'', task_name = ''Employee Handbook'',
                 description = ''Current handbook'', task_type = ''document-upload'',
                 category = None, seller_id = ''b1'', task_response = None,
                 isComplete = False\<rparr>],
       category_isComplete = False\<rparr>]"
  by code_simp

section \<open>Completion of a task\<close>

text \<open>
  C2 says that a task is complete if and only if it has a processed file or some response
  with a non-empty value. The code looks at one response only, the first of the task in the
  list: a task whose first response is empty and whose second is not, and that has no
  processed file, is incomplete.
\<close>

theorem isComplete_exists_response_counterexample:
  "state_isComplete (merge_task_state [] answered_twice survey_task) = Some False
   \<and> claimed_isComplete [] answered_twice survey_task"
  by (simp add: merge_task_state_def claimed_isComplete_def answered_twice_def survey_task_def
      truthy_def)

text \<open>
  C2, amended. For every list of tasks, of uploaded files and of survey responses, the
  \<open>isComplete\<close> flag of a task is true if and only if some uploaded file has the task's id
  and the status "processed", or the first response of the list that has the task's id has
  a non-empty value.
\<close>

theorem isComplete_first_response:
  "map state_isComplete (tasksWithState ts files responses)
     = map (\<lambda>t. Some (first_response_isComplete files responses t)) ts"
  by (simp add: tasksWithState_def merge_task_state_isComplete)

theorem isComplete_first_response_witness:
  "map state_isComplete (tasksWithState [survey_task] [] answered_once) = [Some True]"
proof -
  have h: "\<forall>j < (1::nat). response_task_id (answered_once ! j) \<noteq> task_id survey_task"
    by (simp add: answered_once_def survey_task_def)
  have "first_response_isComplete [] answered_once survey_task"
    unfolding first_response_isComplete_def
    using h by (intro disjI2 exI [of _ 1]) (simp add: answered_once_def survey_task_def truthy_def)
  then show ?thesis
    using isComplete_first_response [of "[survey_task]" "[]" answered_once]
    by simp
qed

section \<open>The order of the buckets\<close>

text \<open>
  C8. For every list of tasks, and for a \<^verbatim>\<open>localeCompare\<close> that is a total preorder, the
  buckets returned by \<^verbatim>\<open>processTasksAndFiles\<close> have distinct names, the names other than
  "Uncategorized" are in the order of \<^verbatim>\<open>localeCompare\<close>, and a bucket named "Uncategorized",
  if there is one, is the last element.
\<close>

theorem categories_sorted_uncategorized_last:
  assumes "\<forall>a b. lc a b \<le> 0 \<or> lc b a \<le> 0"
    and "\<forall>a b c. lc a b \<le> 0 \<longrightarrow> lc b c \<le> 0 \<longrightarrow> lc a c \<le> 0"
  shows "sorted_wrt (\<lambda>a b. lc a b \<le> 0)
           (filter (\<lambda>n. n \<noteq> ''Uncategorized'')
              (map name (processTasksAndFiles lc ts files responses)))
       \<and> (''Uncategorized'' \<in> set (map name (processTasksAndFiles lc ts files responses)) \<longrightarrow>
            last (map name (processTasksAndFiles lc ts files responses)) = ''Uncategorized'')
       \<and> distinct (map name (processTasksAndFiles lc ts files responses))"
proof -
  define res where "res = processTasksAndFiles lc ts files responses"
  define R where "R = (\<lambda>a b. (if a = ''Uncategorized'' then 1
      else if b = ''Uncategorized'' then - 1 else lc a b) \<le> (0::int))"
  have "sorted_wrt (\<lambda>x y. category_compare lc x y \<le> 0) res"
    unfolding res_def using assms by (rule sorted_processTasksAndFiles)
  then have names: "sorted_wrt R (map name res)"
    by (simp add: sorted_wrt_map R_def category_compare_def)
  have dist: "distinct (map name res)"
    unfolding res_def by (rule distinct_names_processTasksAndFiles)
  have "sorted_wrt R (filter (\<lambda>n. n \<noteq> ''Uncategorized'') (map name res))"
    using names by (rule sorted_wrt_filter)
  then have part1: "sorted_wrt (\<lambda>a b. lc a b \<le> 0)
      (filter (\<lambda>n. n \<noteq> ''Uncategorized'') (map name res))"
    by (rule sorted_wrt_mono_rel [rotated]) (simp add: R_def)
  have part2: "last (map name res) = ''Uncategorized''"
    if "''Uncategorized'' \<in> set (map name res)"
  proof -
    from that obtain as bs where split: "map name res = as @ ''Uncategorized'' # bs"
      by (auto dest: split_list)
    have "bs = []"
    proof (rule ccontr)
      assume "bs \<noteq> []"
      then obtain b where "b \<in> set bs" by (cases bs) auto
      with names split have "R ''Uncategorized'' b"
        by (simp add: sorted_wrt_append)
      then show False by (simp add: R_def)
    qed
    with split show ?thesis by simp
  qed
  from part1 part2 dist show ?thesis
    unfolding res_def by blast
qed

theorem categories_sorted_uncategorized_last_witness:
  "sorted_wrt (\<lambda>a b. code_unit_compare a b \<le> 0)
     (filter (\<lambda>n. n \<noteq> ''Uncategorized'')
        (map name (processTasksAndFiles code_unit_compare zoning_tasks [] [])))
   \<and> ''Uncategorized'' \<in> set (map name (processTasksAndFiles code_unit_compare zoning_tasks [] []))
   \<and> last (map name (processTasksAndFiles code_unit_compare zoning_tasks [] [])) = ''Uncategorized''"
proof -
  have "''Uncategorized'' \<in> set (map name (processTasksAndFiles code_unit_compare zoning_tasks [] []))"
    by (simp only: process_zoning) simp
  then show ?thesis
    using categories_sorted_uncategorized_last
      [OF code_unit_compare_order, of zoning_tasks "[]" "[]"]
    by blast
qed

section \<open>Completion of a bucket\<close>

text \<open>
  C9. Every bucket returned by \<^verbatim>\<open>processTasksAndFiles\<close> holds at least one task and its
  \<open>isComplete\<close> flag is true if and only if every task of the bucket has \<open>isComplete\<close> true;
  built from zero tasks, a bucket has the flag true.
\<close>

theorem category_complete_iff_all_tasks:
  "(\<forall>b \<in> set (processTasksAndFiles lc ts files responses).
       tasks b \<noteq> [] \<and> category_isComplete b = (\<forall>t \<in> set (tasks b). isComplete t))
   \<and> category_isComplete (make_category (n, [])) = True"
proof
  show "\<forall>b \<in> set (processTasksAndFiles lc ts files responses).
       tasks b \<noteq> [] \<and> category_isComplete b = (\<forall>t \<in> set (tasks b). isComplete t)"
  proof
    fix b
    assume "b \<in> set (processTasksAndFiles lc ts files responses)"
    then obtain kv where kv: "kv \<in> set (foldl group_task [] ts)" and b: "b = make_category kv"
      by (auto simp: set_processTasksAndFiles)
    have "snd kv \<noteq> []"
      using grouped_invariant [of "[]" ts] kv by simp
    then show "tasks b \<noteq> [] \<and> category_isComplete b = (\<forall>t \<in> set (tasks b). isComplete t)"
      by (cases kv) (simp add: b make_category_def list_all_iff)
  qed
next
  show "category_isComplete (make_category (n, [])) = True"
    by (simp add: make_category_def)
qed

theorem category_complete_iff_all_tasks_witness:
  "\<exists>b. b \<in> set (processTasksAndFiles code_unit_compare [null_category_task] [] [])
       \<and> tasks b \<noteq> [] \<and> \<not> category_isComplete b \<and> \<not> list_all isComplete (tasks b)"
  using category_complete_iff_all_tasks [of code_unit_compare "[null_category_task]" "[]" "[]"]
  by (simp add: process_null_category)

end
